theory Spec2Isabelle
  imports Complex_Main "HOL-Library.Multiset" "HOL-Library.Word"
begin

section \<open>Document scanner: data model\<close>

text \<open>
  The notebook \<^verbatim>\<open>scanner.ipynb\<close> defines three functions: \<^verbatim>\<open>order_points\<close>,
  \<^verbatim>\<open>four_point_transform\<close> and \<^verbatim>\<open>scan_document\<close>, and a last cell that calls
  \<^verbatim>\<open>scan_document\<close> and shows the result.

  The numbers of the notebook are binary floating-point numbers: Python's \<^verbatim>\<open>float\<close>
  and NumPy's \<^verbatim>\<open>float64\<close> for the ratio, the width of the working copy and the scaled
  contour; NumPy's \<^verbatim>\<open>float32\<close> for \<^verbatim>\<open>rect\<close>, for the side lengths computed from it
  and for \<^verbatim>\<open>dst\<close>. The model computes with these numbers: every operation yields the
  exact result rounded to the nearest number of the format, ties to the one with an even
  significand, and infinity where the rounded result exceeds the range.
\<close>

subsection \<open>Binary floating point\<close>

text \<open>
  A floating-point value is a real number, one of the two infinities, or not-a-number.
  The sign of zero is not kept: no operation of the notebook tells \<open>-0.0\<close> from \<open>0.0\<close>
  (no division by a computed zero happens in NumPy arithmetic, see \<^verbatim>\<open>scan_document\<close>).
\<close>

datatype fl = Fin real | PInf | NInf | NaN

text \<open>
  A format is given by its precision (the number of bits of the significand, the implicit
  one included) and its greatest exponent: 24 and 127 for \<^verbatim>\<open>float32\<close>, 53 and 1023
  for \<^verbatim>\<open>float64\<close>.
\<close>

datatype format = Binary32 | Binary64

fun prec :: "format \<Rightarrow> int" where
  "prec Binary32 = 24"
| "prec Binary64 = 53"

fun emax :: "format \<Rightarrow> int" where
  "emax Binary32 = 127"
| "emax Binary64 = 1023"

definition emin :: "format \<Rightarrow> int" where
  "emin f = 1 - emax f"

definition pow2 :: "int \<Rightarrow> real" where
  "pow2 k = (if 0 \<le> k then 2 ^ nat k else 1 / 2 ^ nat (- k))"

text \<open>Rounding a real number to the nearest integer, a tie to the even one.\<close>

definition rne :: "real \<Rightarrow> int" where
  "rne q =
     (let f = \<lfloor>q\<rfloor>; d = q - real_of_int f
      in if d < 1 / 2 then f else if 1 / 2 < d then f + 1 else if even f then f else f + 1)"

text \<open>The binary exponent of a non-zero real: \<open>2 ^ expo x \<le> \<bar>x\<bar> < 2 ^ (expo x + 1)\<close>.\<close>

definition expo :: "real \<Rightarrow> int" where
  "expo x = \<lfloor>log 2 \<bar>x\<bar>\<rfloor>"

text \<open>
  Rounding a real number into a format: the spacing \<open>u\<close> of the format's numbers at \<open>x\<close>
  is \<open>2 ^ (e - p + 1)\<close> for the exponent \<open>e\<close> of \<open>x\<close>, at least the least normal exponent
  (below it the numbers are subnormal and equally spaced); \<open>x\<close> is rounded to a
  multiple of \<open>u\<close>, and to infinity if that multiple is beyond the greatest finite number.
\<close>

definition round_fl :: "format \<Rightarrow> real \<Rightarrow> fl" where
  "round_fl f x =
     (if x = 0 then Fin 0
      else
        let e = max (expo x) (emin f);
            u = pow2 (e - prec f + 1);
            r = real_of_int (rne (x / u)) * u
        in if pow2 (emax f + 1) \<le> \<bar>r\<bar> then (if 0 < x then PInf else NInf) else Fin r)"

text \<open>
  The arithmetic of IEEE 754 on these values: an operation on finite numbers rounds the
  exact result; infinities and not-a-number propagate as the standard says. NumPy
  signals overflow, division by zero and invalid operations by a warning, not by an
  exception.
\<close>

fun fl_neg :: "fl \<Rightarrow> fl" where
  "fl_neg (Fin x) = Fin (- x)"
| "fl_neg PInf = NInf"
| "fl_neg NInf = PInf"
| "fl_neg NaN = NaN"

fun fl_add :: "format \<Rightarrow> fl \<Rightarrow> fl \<Rightarrow> fl" where
  "fl_add f NaN b = NaN"
| "fl_add f a NaN = NaN"
| "fl_add f PInf NInf = NaN"
| "fl_add f NInf PInf = NaN"
| "fl_add f PInf b = PInf"
| "fl_add f a PInf = PInf"
| "fl_add f NInf b = NInf"
| "fl_add f a NInf = NInf"
| "fl_add f (Fin x) (Fin y) = round_fl f (x + y)"

definition fl_sub :: "format \<Rightarrow> fl \<Rightarrow> fl \<Rightarrow> fl" where
  "fl_sub f a b = fl_add f a (fl_neg b)"

fun fl_sgn :: "fl \<Rightarrow> int" where
  "fl_sgn (Fin x) = (if 0 < x then 1 else if x < 0 then - 1 else 0)"
| "fl_sgn PInf = 1"
| "fl_sgn NInf = - 1"
| "fl_sgn NaN = 0"

fun fl_mul :: "format \<Rightarrow> fl \<Rightarrow> fl \<Rightarrow> fl" where
  "fl_mul f NaN b = NaN"
| "fl_mul f a NaN = NaN"
| "fl_mul f (Fin x) (Fin y) = round_fl f (x * y)"
| "fl_mul f a b =
     (if fl_sgn a * fl_sgn b = 0 then NaN else if 0 < fl_sgn a * fl_sgn b then PInf else NInf)"

fun fl_div :: "format \<Rightarrow> fl \<Rightarrow> fl \<Rightarrow> fl" where
  "fl_div f NaN b = NaN"
| "fl_div f a NaN = NaN"
| "fl_div f (Fin x) (Fin y) =
     (if y = 0 then (if x = 0 then NaN else if 0 < x then PInf else NInf)
      else round_fl f (x / y))"
| "fl_div f (Fin x) b = Fin 0"
| "fl_div f a (Fin y) = (if 0 \<le> fl_sgn a * (if y < 0 then - 1 else 1) then PInf else NInf)"
| "fl_div f a b = NaN"

fun fl_sqrt :: "format \<Rightarrow> fl \<Rightarrow> fl" where
  "fl_sqrt f (Fin x) = (if x < 0 then NaN else round_fl f (sqrt x))"
| "fl_sqrt f PInf = PInf"
| "fl_sqrt f NInf = NaN"
| "fl_sqrt f NaN = NaN"

text \<open>Conversion of a value into a format (\<^verbatim>\<open>astype\<close>, or storing into an array).\<close>

fun fl_cast :: "format \<Rightarrow> fl \<Rightarrow> fl" where
  "fl_cast f (Fin x) = round_fl f x"
| "fl_cast f a = a"

text \<open>The comparison \<open>\<le>\<close>: false whenever an operand is not-a-number.\<close>

fun fl_le :: "fl \<Rightarrow> fl \<Rightarrow> bool" where
  "fl_le NaN b = False"
| "fl_le a NaN = False"
| "fl_le NInf b = True"
| "fl_le a PInf = True"
| "fl_le (Fin x) (Fin y) = (x \<le> y)"
| "fl_le a b = False"

text \<open>Conversion of an integer to a floating-point number: rounded, as every result.\<close>

definition float_of_int :: "format \<Rightarrow> int \<Rightarrow> fl" where
  "float_of_int f n = round_fl f (real_of_int n)"

subsection \<open>Python's \<^verbatim>\<open>int\<close>\<close>

text \<open>
  Python's \<^verbatim>\<open>int(x)\<close> on a float truncates towards zero; on an infinity it raises
  \<^verbatim>\<open>OverflowError\<close>, on not-a-number \<^verbatim>\<open>ValueError\<close>. \<open>fl_trunc\<close> is the truncation
  alone.
\<close>

fun fl_trunc :: "fl \<Rightarrow> int" where
  "fl_trunc (Fin x) = (if 0 \<le> x then \<lfloor>x\<rfloor> else \<lceil>x\<rceil>)"
| "fl_trunc a = 0"

datatype py_error = ValueError | AttributeError | ZeroDivisionError | TypeError | OverflowError

fun py_int :: "fl \<Rightarrow> py_error + int" where
  "py_int (Fin x) = Inr (fl_trunc (Fin x))"
| "py_int PInf = Inl OverflowError"
| "py_int NInf = Inl OverflowError"
| "py_int NaN = Inl ValueError"

subsection \<open>NumPy helpers used by \<^verbatim>\<open>order_points\<close>\<close>

text \<open>A point is a row of two coordinates \<open>(x, y)\<close>.\<close>

type_synonym point = "fl \<times> fl"

text \<open>
  \<^verbatim>\<open>np.argmin\<close> and \<^verbatim>\<open>np.argmax\<close> return the index of the first occurrence of the
  least (greatest) entry, and the index of the first not-a-number if there is one; on
  an empty array they raise \<^verbatim>\<open>ValueError\<close>, which the caller below checks before it
  uses them.
\<close>

fun argmin :: "fl list \<Rightarrow> nat" where
  "argmin [] = 0"
| "argmin [x] = 0"
| "argmin (x # y # ys) =
     (if x = NaN then 0
      else
        let i = argmin (y # ys)
        in if (y # ys) ! i = NaN then Suc i else if fl_le x ((y # ys) ! i) then 0 else Suc i)"

fun argmax :: "fl list \<Rightarrow> nat" where
  "argmax [] = 0"
| "argmax [x] = 0"
| "argmax (x # y # ys) =
     (if x = NaN then 0
      else
        let i = argmax (y # ys)
        in if (y # ys) ! i = NaN then Suc i else if fl_le ((y # ys) ! i) x then 0 else Suc i)"

text \<open>
  \<^verbatim>\<open>pts.sum(axis=1)\<close>: the row sums \<open>x + y\<close>, and \<^verbatim>\<open>np.diff(pts, axis=1)\<close>: the
  difference of consecutive columns of each row, \<open>out[i] = pts[i][1] - pts[i][0]\<close>, that
  is \<open>y - x\<close>. Both are computed in the type of \<^verbatim>\<open>pts\<close>, which is \<^verbatim>\<open>float64\<close> for the
  product of the contour and the ratio that \<^verbatim>\<open>scan_document\<close> passes.
\<close>

definition row_sum :: "point \<Rightarrow> fl" where
  "row_sum p = fl_add Binary64 (fst p) (snd p)"

definition row_diff :: "point \<Rightarrow> fl" where
  "row_diff p = fl_sub Binary64 (snd p) (fst p)"

definition sum_axis1 :: "point list \<Rightarrow> fl list" where
  "sum_axis1 pts = map row_sum pts"

definition diff_axis1 :: "point list \<Rightarrow> fl list" where
  "diff_axis1 pts = map row_diff pts"

text \<open>Storing a row into the \<^verbatim>\<open>float32\<close> array \<^verbatim>\<open>rect\<close> narrows both coordinates.\<close>

definition astype32 :: "point \<Rightarrow> point" where
  "astype32 p = (fl_cast Binary32 (fst p), fl_cast Binary32 (snd p))"

subsection \<open>\<^verbatim>\<open>order_points\<close>\<close>

text \<open>
  \<^verbatim>\<open>
  def order_points(pts):
      rect = np.zeros((4, 2), dtype="float32")
      s = pts.sum(axis=1)
      rect[0] = pts[np.argmin(s)]
      rect[2] = pts[np.argmax(s)]
      diff = np.diff(pts, axis=1)
      rect[1] = pts[np.argmin(diff)]
      rect[3] = pts[np.argmax(diff)]
      return rect
  \<close>
  The function accepts any number of rows; with no row at all \<^verbatim>\<open>np.argmin\<close> raises.
\<close>

definition order_points :: "point list \<Rightarrow> py_error + point list" where
  "order_points pts =
     (if pts = [] then Inl ValueError
      else
        let rect = [(Fin 0, Fin 0), (Fin 0, Fin 0), (Fin 0, Fin 0), (Fin 0, Fin 0)];
            s = sum_axis1 pts;
            rect = rect[0 := astype32 (pts ! argmin s)];
            rect = rect[2 := astype32 (pts ! argmax s)];
            diff = diff_axis1 pts;
            rect = rect[1 := astype32 (pts ! argmin diff)];
            rect = rect[3 := astype32 (pts ! argmax diff)]
        in Inr rect)"

section \<open>The OpenCV operations the notebook calls\<close>

text \<open>
  OpenCV is not part of the repository. Every operation of it that the notebook calls
  is a field of the record \<open>cv2\<close>, so each theorem below holds for whatever these
  operations compute. \<open>'img\<close> is the type of images (\<^verbatim>\<open>ndarray\<close>), \<open>'mat\<close> the type of
  3x3 transforms. A contour is an array of points with 32-bit signed integer
  coordinates (\<^verbatim>\<open>int32\<close>, read with \<open>sint\<close>); the numbers of rows and columns of an
  image are taken as 32-bit unsigned integers (read with \<open>uint\<close>). The Python variable
  \<^verbatim>\<open>image\<close> is written \<open>img\<close>.
\<close>

type_synonym contour = "(32 word \<times> 32 word) list"

datatype color_code = COLOR_BGR2GRAY | COLOR_BGR2RGB

datatype adaptive_method = ADAPTIVE_THRESH_MEAN_C | ADAPTIVE_THRESH_GAUSSIAN_C

datatype threshold_type = THRESH_BINARY | THRESH_BINARY_INV

record ('img, 'mat) cv2 =
  shape :: "'img \<Rightarrow> 32 word \<times> 32 word"
  resize :: "'img \<Rightarrow> int \<times> int \<Rightarrow> 'img"
  cvtColor :: "'img \<Rightarrow> color_code \<Rightarrow> 'img"
  GaussianBlur :: "'img \<Rightarrow> nat \<times> nat \<Rightarrow> real \<Rightarrow> 'img"
  Canny :: "'img \<Rightarrow> real \<Rightarrow> real \<Rightarrow> 'img"
  dilate :: "'img \<Rightarrow> nat \<times> nat \<Rightarrow> nat \<Rightarrow> 'img"
  erode :: "'img \<Rightarrow> nat \<times> nat \<Rightarrow> nat \<Rightarrow> 'img"
  findContours :: "'img \<Rightarrow> contour list"
  contourArea :: "contour \<Rightarrow> real"
  arcLength :: "contour \<Rightarrow> bool \<Rightarrow> real"
  approxPolyDP :: "contour \<Rightarrow> real \<Rightarrow> bool \<Rightarrow> contour"
  getPerspectiveTransform :: "point list \<Rightarrow> point list \<Rightarrow> 'mat"
  warpPerspective :: "'img \<Rightarrow> 'mat \<Rightarrow> int \<times> int \<Rightarrow> 'img"
  adaptiveThreshold ::
    "'img \<Rightarrow> nat \<Rightarrow> adaptive_method \<Rightarrow> threshold_type \<Rightarrow> nat \<Rightarrow> real \<Rightarrow> 'img"

text \<open>
  \<^verbatim>\<open>cv2.imread(path)\<close> reads the file system: \<open>files path\<close> is the image it decodes
  from \<open>path\<close>, \<open>None\<close> where it returns \<^verbatim>\<open>None\<close> (no such file, or not an image).
\<close>

type_synonym 'img files = "string \<Rightarrow> 'img option"

section \<open>\<^verbatim>\<open>four_point_transform\<close>\<close>

text \<open>
  \<^verbatim>\<open>
  (tl, tr, br, bl) = rect
  widthA = np.sqrt(((br[0] - bl[0]) ** 2) + ((br[1] - bl[1]) ** 2))
  widthB = np.sqrt(((tr[0] - tl[0]) ** 2) + ((tr[1] - tl[1]) ** 2))
  maxWidth = max(int(widthA), int(widthB))
  heightA = np.sqrt(((tr[0] - br[0]) ** 2) + ((tr[1] - br[1]) ** 2))
  heightB = np.sqrt(((tl[0] - bl[0]) ** 2) + ((tl[1] - bl[1]) ** 2))
  maxHeight = max(int(heightA), int(heightB))
  \<close>
  The entries of \<^verbatim>\<open>rect\<close> are \<^verbatim>\<open>float32\<close> scalars, and so is every intermediate
  result: the two differences, their squares (the product of the difference with
  itself), the sum and the square root are each rounded to \<^verbatim>\<open>float32\<close>. \<open>side32 p q\<close>
  is the length so computed of the side from \<open>q\<close> to \<open>p\<close>. \<^verbatim>\<open>int\<close> raises on a length
  that is infinite or not a number.
\<close>

definition side32 :: "point \<Rightarrow> point \<Rightarrow> fl" where
  "side32 p q =
     (let dx = fl_sub Binary32 (fst p) (fst q);
          dy = fl_sub Binary32 (snd p) (snd q)
      in fl_sqrt Binary32 (fl_add Binary32 (fl_mul Binary32 dx dx) (fl_mul Binary32 dy dy)))"

definition dest_size :: "point list \<Rightarrow> py_error + int \<times> int" where
  "dest_size rect =
     (let ptl = rect ! 0; ptr = rect ! 1; pbr = rect ! 2; pbl = rect ! 3;
          widthA = side32 pbr pbl;
          widthB = side32 ptr ptl
      in case py_int widthA of
           Inl e \<Rightarrow> Inl e
         | Inr a \<Rightarrow>
             (case py_int widthB of
                Inl e \<Rightarrow> Inl e
              | Inr b \<Rightarrow>
                  (let maxWidth = max a b;
                       heightA = side32 ptr pbr;
                       heightB = side32 ptl pbl
                   in case py_int heightA of
                        Inl e \<Rightarrow> Inl e
                      | Inr c \<Rightarrow>
                          (case py_int heightB of
                             Inl e \<Rightarrow> Inl e
                           | Inr d \<Rightarrow> (let maxHeight = max c d in Inr (maxWidth, maxHeight))))))"

text \<open>
  \<^verbatim>\<open>
  dst = np.array([[0, 0], [maxWidth - 1, 0],
                  [maxWidth - 1, maxHeight - 1], [0, maxHeight - 1]], dtype="float32")
  \<close>
\<close>

definition dst_corners :: "int \<times> int \<Rightarrow> point list" where
  "dst_corners dsize =
     (let maxWidth = fst dsize; maxHeight = snd dsize
      in [(Fin 0, Fin 0),
          (float_of_int Binary32 (maxWidth - 1), Fin 0),
          (float_of_int Binary32 (maxWidth - 1), float_of_int Binary32 (maxHeight - 1)),
          (Fin 0, float_of_int Binary32 (maxHeight - 1))])"

text \<open>
  \<^verbatim>\<open>
  def four_point_transform(image, pts):
      rect = order_points(pts)
      ...
      M = cv2.getPerspectiveTransform(rect, dst)
      warped = cv2.warpPerspective(image, M, (maxWidth, maxHeight))
      return warped
  \<close>
  There is no test of the size or of the transform between these lines.
\<close>

definition four_point_transform ::
  "('img, 'mat) cv2 \<Rightarrow> 'img \<Rightarrow> point list \<Rightarrow> py_error + 'img" where
  "four_point_transform cv img pts =
     (case order_points pts of
        Inl e \<Rightarrow> Inl e
      | Inr rect \<Rightarrow>
          (case dest_size rect of
             Inl e \<Rightarrow> Inl e
           | Inr dsize \<Rightarrow>
               (let dst = dst_corners dsize;
                    M = getPerspectiveTransform cv rect dst;
                    warped = warpPerspective cv img M dsize
                in Inr warped)))"

section \<open>\<^verbatim>\<open>scan_document\<close>\<close>

text \<open>
  What \<^verbatim>\<open>scan_document\<close> returns: the bare \<^verbatim>\<open>None\<close> of its \<^verbatim>\<open>return\<close> without a
  value, or the pair of \<^verbatim>\<open>return image, T\<close>.
\<close>

datatype 'img scan_return = ReturnNone | ReturnPair 'img 'img

text \<open>
  \<^verbatim>\<open>
  ratio = image.shape[0] / 500.0
  image = cv2.resize(image, (int(image.shape[1] / ratio), 500))
  \<close>
  Both divisions are Python's, of an \<^verbatim>\<open>int\<close> by a \<^verbatim>\<open>float\<close>: the integer is converted
  to \<^verbatim>\<open>float64\<close> and the quotient rounded. \<open>scaled_width\<close> is the second quotient and
  \<open>working_copy\<close> the resized image.
\<close>

definition scale_ratio :: "('img, 'mat) cv2 \<Rightarrow> 'img \<Rightarrow> fl" where
  "scale_ratio cv img =
     fl_div Binary64 (float_of_int Binary64 (uint (fst (shape cv img)))) (Fin 500)"

definition scaled_width :: "('img, 'mat) cv2 \<Rightarrow> 'img \<Rightarrow> fl" where
  "scaled_width cv img =
     fl_div Binary64 (float_of_int Binary64 (uint (snd (shape cv img)))) (scale_ratio cv img)"

definition working_copy :: "('img, 'mat) cv2 \<Rightarrow> 'img \<Rightarrow> 'img" where
  "working_copy cv img = resize cv img (fl_trunc (scaled_width cv img), 500)"

text \<open>
  \<^verbatim>\<open>
  gray = cv2.cvtColor(image, cv2.COLOR_BGR2GRAY)
  gray = cv2.GaussianBlur(gray, (5, 5), 0)
  edged = cv2.Canny(gray, 75, 200)
  kernel = np.ones((3, 3), np.uint8)
  edged = cv2.dilate(edged, kernel, iterations=1)
  edged = cv2.erode(edged, kernel, iterations=1)
  \<close>
  The all-ones kernel is given by its size.
\<close>

definition edge_map :: "('img, 'mat) cv2 \<Rightarrow> 'img \<Rightarrow> 'img" where
  "edge_map cv img =
     (let gray = cvtColor cv img COLOR_BGR2GRAY;
          gray = GaussianBlur cv gray (5, 5) 0;
          edged = Canny cv gray 75 200;
          kernel = (3, 3);
          edged = dilate cv edged kernel 1;
          edged = erode cv edged kernel 1
      in edged)"

text \<open>
  \<^verbatim>\<open>sorted(xs, key=k, reverse=True)\<close>: descending by key, elements with equal keys in
  their original order (Python's sort is stable, also with \<^verbatim>\<open>reverse\<close>).
\<close>

definition sorted_reverse :: "('a \<Rightarrow> real) \<Rightarrow> 'a list \<Rightarrow> 'a list" where
  "sorted_reverse k xs = sort_key (\<lambda>x. - k x) xs"

text \<open>
  \<^verbatim>\<open>
  cnts, _ = cv2.findContours(edged.copy(), cv2.RETR_LIST, cv2.CHAIN_APPROX_SIMPLE)
  cnts = sorted(cnts, key=cv2.contourArea, reverse=True)[:5]
  \<close>
\<close>

definition candidates :: "('img, 'mat) cv2 \<Rightarrow> 'img \<Rightarrow> contour list" where
  "candidates cv edged = take 5 (sorted_reverse (contourArea cv) (findContours cv edged))"

text \<open>
  \<^verbatim>\<open>
  peri = cv2.arcLength(c, True)
  approx = cv2.approxPolyDP(c, 0.02 * peri, True)
  \<close>
\<close>

definition simplify :: "('img, 'mat) cv2 \<Rightarrow> contour \<Rightarrow> contour" where
  "simplify cv c = (let peri = arcLength cv c True in approxPolyDP cv c (0.02 * peri) True)"

text \<open>
  \<^verbatim>\<open>
  screenCnt = None
  for c in cnts:
      ...
      if len(approx) == 4:
          screenCnt = approx
          break
  \<close>
\<close>

fun find_quad :: "('img, 'mat) cv2 \<Rightarrow> contour list \<Rightarrow> contour option" where
  "find_quad cv [] = None"
| "find_quad cv (c # cnts) =
     (let approx = simplify cv c in
      if length approx = 4 then Some approx else find_quad cv cnts)"

text \<open>
  \<^verbatim>\<open>screenCnt.reshape(4, 2) * ratio\<close>: the product of an \<^verbatim>\<open>int32\<close> array and a
  Python \<^verbatim>\<open>float\<close> is a \<^verbatim>\<open>float64\<close> array, each coordinate converted and multiplied
  by the ratio.
\<close>

definition scale_contour :: "contour \<Rightarrow> fl \<Rightarrow> point list" where
  "scale_contour screenCnt ratio =
     map (\<lambda>p. (fl_mul Binary64 (float_of_int Binary64 (sint (fst p))) ratio,
               fl_mul Binary64 (float_of_int Binary64 (sint (snd p))) ratio)) screenCnt"

definition no_document_message :: string where
  "no_document_message = ''No document detected. Please try another image.''"

text \<open>
  \<^verbatim>\<open>
  def scan_document(image_path):
      image = cv2.imread(image_path)
      orig = image.copy()
      ratio = image.shape[0] / 500.0
      image = cv2.resize(image, (int(image.shape[1] / ratio), 500))
      ...
      if screenCnt is None:
          print("No document detected. Please try another image.")
          return
      warped = four_point_transform(orig, screenCnt.reshape(4, 2) * ratio)
      warped = cv2.cvtColor(warped, cv2.COLOR_BGR2GRAY)
      T = cv2.adaptiveThreshold(warped, 255, cv2.ADAPTIVE_THRESH_GAUSSIAN_C,
                                cv2.THRESH_BINARY, 11, 2)
      return image, T
  \<close>
  The result is the list of lines printed and either the exception raised or the value
  returned. \<^verbatim>\<open>image.copy()\<close> raises \<^verbatim>\<open>AttributeError\<close> when \<^verbatim>\<open>imread\<close> returned
  \<^verbatim>\<open>None\<close>; Python's float division by \<^verbatim>\<open>ratio\<close> raises \<^verbatim>\<open>ZeroDivisionError\<close> for
  an image of height 0; \<^verbatim>\<open>int\<close> raises on a quotient that is not finite.
\<close>

definition scan_document ::
  "('img, 'mat) cv2 \<Rightarrow> 'img files \<Rightarrow> string \<Rightarrow> string list \<times> (py_error + 'img scan_return)" where
  "scan_document cv files image_path =
     (case files image_path of
        None \<Rightarrow> ([], Inl AttributeError)
      | Some img \<Rightarrow>
          (let orig = img;
               ratio = scale_ratio cv img
           in if ratio = Fin 0 then ([], Inl ZeroDivisionError)
              else
                (case py_int (scaled_width cv img) of
                   Inl e \<Rightarrow> ([], Inl e)
                 | Inr w \<Rightarrow>
                     (let img = resize cv img (w, 500);
                          edged = edge_map cv img;
                          cnts = candidates cv edged
                      in (case find_quad cv cnts of
                            None \<Rightarrow> ([no_document_message], Inr ReturnNone)
                          | Some screenCnt \<Rightarrow>
                              (case four_point_transform cv orig (scale_contour screenCnt ratio) of
                                 Inl e \<Rightarrow> ([], Inl e)
                               | Inr warped \<Rightarrow>
                                   (let warped = cvtColor cv warped COLOR_BGR2GRAY;
                                        T = adaptiveThreshold cv warped 255
                                              ADAPTIVE_THRESH_GAUSSIAN_C THRESH_BINARY 11 2
                                    in ([], Inr (ReturnPair img T)))))))))"

text \<open>
  The last cell of the notebook:
  \<^verbatim>\<open>
  input_image_path = "sample_images/dollar_bill.JPG"
  orig_resized, scanned_image = scan_document(input_image_path)
  if scanned_image is not None:
      ... ax1.imshow(cv2.cvtColor(orig_resized, cv2.COLOR_BGR2RGB)) ...
      ... ax2.imshow(scanned_image, cmap='gray') ...
  \<close>
  Unpacking \<^verbatim>\<open>None\<close> into two names raises \<^verbatim>\<open>TypeError\<close>. The second component of a
  returned pair is an array, never \<^verbatim>\<open>None\<close>. The value is the list of images shown.
\<close>

definition input_image_path :: string where
  "input_image_path = ''sample_images/dollar_bill.JPG''"

definition notebook_main ::
  "('img, 'mat) cv2 \<Rightarrow> 'img files \<Rightarrow> string list \<times> (py_error + 'img list)" where
  "notebook_main cv files =
     (case scan_document cv files input_image_path of
        (out, Inl e) \<Rightarrow> (out, Inl e)
      | (out, Inr ReturnNone) \<Rightarrow> (out, Inl TypeError)
      | (out, Inr (ReturnPair orig_resized scanned_image)) \<Rightarrow>
          (out, Inr [cvtColor cv orig_resized COLOR_BGR2RGB, scanned_image]))"

section \<open>Notions of the specification\<close>

text \<open>
  The real number a finite floating-point value stands for, and the points all of whose
  coordinates are finite. A pixel point has integer coordinates of magnitude below
  \<open>2 ^ 24\<close>: every such coordinate, and every sum or difference of two of them, is a
  number of both formats.
\<close>

fun val :: "fl \<Rightarrow> real" where
  "val (Fin x) = x"
| "val a = 0"

definition finite_point :: "point \<Rightarrow> bool" where
  "finite_point p \<longleftrightarrow> (\<exists>x y. p = (Fin x, Fin y))"

definition pixel_point :: "point \<Rightarrow> bool" where
  "pixel_point p \<longleftrightarrow>
     (\<exists>m n :: int. \<bar>m\<bar> < 2 ^ 24 \<and> \<bar>n\<bar> < 2 ^ 24 \<and> p = (Fin (real_of_int m), Fin (real_of_int n)))"

text \<open>
  The quantities the spec orders the corners by, as real numbers: \<open>x + y\<close> and \<open>x - y\<close>.
\<close>

definition exact_sum :: "point \<Rightarrow> real" where
  "exact_sum p = val (fst p) + val (snd p)"

definition exact_diff :: "point \<Rightarrow> real" where
  "exact_diff p = val (fst p) - val (snd p)"

text \<open>
  The spec's sum rule (section 4.4 and the invariant of section 3), written on an input
  \<open>pts\<close> and an ordered result \<open>rect\<close>: index 0 has the least \<open>x + y\<close>, index 2 the
  greatest.
\<close>

definition spec_sum_rule :: "point list \<Rightarrow> point list \<Rightarrow> bool" where
  "spec_sum_rule pts rect \<longleftrightarrow>
     (\<forall>p \<in> set pts. exact_sum (rect ! 0) \<le> exact_sum p) \<and>
     (\<forall>p \<in> set pts. exact_sum p \<le> exact_sum (rect ! 2))"

text \<open>
  The spec's reading of the difference rule (section 4.4 and the third inequality of
  the corner-ordering property of section 8): index 1 has the least \<open>x - y\<close>, index 3
  the greatest.
\<close>

definition spec_diff_rule :: "point list \<Rightarrow> point list \<Rightarrow> bool" where
  "spec_diff_rule pts rect \<longleftrightarrow>
     (\<forall>p \<in> set pts. exact_diff (rect ! 1) \<le> exact_diff p) \<and>
     (\<forall>p \<in> set pts. exact_diff p \<le> exact_diff (rect ! 3)) \<and>
     exact_diff (rect ! 1) \<le> exact_diff (rect ! 3)"

text \<open>
  The hypothesis of the corner-ordering property, in the spec's words a quadrilateral
  that is "roughly axis-aligned", is about the corners as points of the plane:
  going round the corners, the top edge runs to the right, the right edge downwards
  (image coordinates: \<open>y\<close> grows downwards), the bottom edge back to the left and the
  left edge upwards, each one less than 45 degrees off its axis. The corners are named
  \<open>a\<close> (top-left), \<open>b\<close> (top-right), \<open>c\<close> (bottom-right) and \<open>d\<close> (bottom-left);
  \<open>aligned_by m\<close> asks for a margin \<open>m\<close> in each of the four inequalities, and
  \<open>fpoint\<close> is the floating-point point with the given coordinates.
\<close>

type_synonym rpoint = "real \<times> real"

definition fpoint :: "rpoint \<Rightarrow> point" where
  "fpoint p = (Fin (fst p), Fin (snd p))"

definition aligned_by :: "real \<Rightarrow> rpoint \<Rightarrow> rpoint \<Rightarrow> rpoint \<Rightarrow> rpoint \<Rightarrow> bool" where
  "aligned_by m a b c d \<longleftrightarrow>
     \<bar>snd b - snd a\<bar> + m < fst b - fst a \<and>
     \<bar>fst c - fst b\<bar> + m < snd c - snd b \<and>
     \<bar>snd c - snd d\<bar> + m < fst c - fst d \<and>
     \<bar>fst d - fst a\<bar> + m < snd d - snd a"

definition roughly_axis_aligned :: "rpoint \<Rightarrow> rpoint \<Rightarrow> rpoint \<Rightarrow> rpoint \<Rightarrow> bool" where
  "roughly_axis_aligned a b c d \<longleftrightarrow> aligned_by 0 a b c d"

text \<open>
  Twice the signed area of the triangle \<open>p q r\<close>: positive when the turn at \<open>q\<close> is
  clockwise on the screen. A quadrilateral is strictly convex (and so neither degenerate
  nor self-intersecting) when all four turns have the same sign.
\<close>

definition turn :: "rpoint \<Rightarrow> rpoint \<Rightarrow> rpoint \<Rightarrow> real" where
  "turn p q r = (fst q - fst p) * (snd r - snd q) - (snd q - snd p) * (fst r - fst q)"

definition strictly_convex :: "rpoint \<Rightarrow> rpoint \<Rightarrow> rpoint \<Rightarrow> rpoint \<Rightarrow> bool" where
  "strictly_convex a b c d \<longleftrightarrow>
     0 < turn a b c \<and> 0 < turn b c d \<and> 0 < turn c d a \<and> 0 < turn d a b"



subsection \<open>Auxiliary notions for the rounding analysis\<close>

text \<open>
  A finite value of magnitude at most \<open>2 ^ k\<close>, a finite non-negative value of at most
  \<open>2 ^ k\<close>, a point with both coordinates of magnitude at most \<open>2 ^ 55\<close>, and the
  multiple of the spacing that \<open>round_fl\<close> rounds to, before the test for overflow.
\<close>

definition fin_le :: "int \<Rightarrow> fl \<Rightarrow> bool" where
  "fin_le k a \<longleftrightarrow> (\<exists>r. a = Fin r \<and> \<bar>r\<bar> \<le> pow2 k)"

definition fin_nn :: "int \<Rightarrow> fl \<Rightarrow> bool" where
  "fin_nn k a \<longleftrightarrow> (\<exists>r. a = Fin r \<and> 0 \<le> r \<and> r \<le> pow2 k)"

definition bounded_point :: "point \<Rightarrow> bool" where
  "bounded_point p \<longleftrightarrow> fin_le 55 (fst p) \<and> fin_le 55 (snd p)"

definition rounded :: "format \<Rightarrow> real \<Rightarrow> real" where
  "rounded f x =
     (let u = pow2 (max (expo x) (emin f) - prec f + 1) in real_of_int (rne (x / u)) * u)"

section \<open>The binarizer\<close>

text \<open>
  Modelled from the spec: the adaptive threshold of section 4.6,
  \<^verbatim>\<open>cv2.adaptiveThreshold\<close> in the notebook, which is OpenCV's and not in the
  repository. A gray image is a list of rows of intensities \<open>0..255\<close>.
\<close>

type_synonym gray_image = "nat list list"

text \<open>
  Modelled from the spec: the neighbourhood, "window size 11 x 11", as the offsets
  \<open>-5..5\<close> in each direction.
\<close>

definition window :: "int list" where
  "window = [- 5..5]"

text \<open>
  Modelled from the spec: the pixel at a position of the neighbourhood. The spec does not
  say what a window reaching over the border sees; the model repeats the border pixel
  (an index is clamped into the image).
\<close>

definition clamp_index :: "nat \<Rightarrow> int \<Rightarrow> nat" where
  "clamp_index n i = nat (max 0 (min (int n - 1) i))"

definition pixel_at :: "gray_image \<Rightarrow> int \<Rightarrow> int \<Rightarrow> nat" where
  "pixel_at g r c = (let row = g ! clamp_index (length g) r in row ! clamp_index (length row) c)"

text \<open>
  Modelled from the spec: "a local neighborhood mean (Gaussian-weighted, window size
  11 x 11)", for weights \<open>w\<close> given per offset.
\<close>

definition local_mean :: "(int \<Rightarrow> int \<Rightarrow> real) \<Rightarrow> gray_image \<Rightarrow> nat \<Rightarrow> nat \<Rightarrow> real" where
  "local_mean w g r c =
     (\<Sum>i \<leftarrow> window. \<Sum>j \<leftarrow> window. w i j * real (pixel_at g (int r + i) (int c + j)))"

text \<open>
  Modelled from the spec: "[the mean] minus a constant offset of 2, and classify the
  pixel above/below that local threshold". Above is white: the notebook passes the
  maximum value 255 and \<^verbatim>\<open>THRESH_BINARY\<close>.
\<close>

definition binarizer :: "(int \<Rightarrow> int \<Rightarrow> real) \<Rightarrow> gray_image \<Rightarrow> gray_image" where
  "binarizer w g =
     map (\<lambda>r. map (\<lambda>c. if local_mean w g r c - 2 < real (g ! r ! c) then 255 else 0)
                 [0..<length (g ! r)])
       [0..<length g]"

text \<open>
  Modelled from the spec: Gaussian weights of standard deviation \<open>s\<close> on the window,
  normalised to sum 1.
\<close>

definition gaussian_weights :: "real \<Rightarrow> int \<Rightarrow> int \<Rightarrow> real" where
  "gaussian_weights s i j =
     exp (- real_of_int (i\<^sup>2 + j\<^sup>2) / (2 * s\<^sup>2)) /
     (\<Sum>a \<leftarrow> window. \<Sum>b \<leftarrow> window. exp (- real_of_int (a\<^sup>2 + b\<^sup>2) / (2 * s\<^sup>2)))"

text \<open>
  What makes \<open>w\<close> the weights of a mean: none is negative and they sum to 1.
\<close>

definition weights_ok :: "(int \<Rightarrow> int \<Rightarrow> real) \<Rightarrow> bool" where
  "weights_ok w \<longleftrightarrow>
     (\<forall>i \<in> set window. \<forall>j \<in> set window. 0 \<le> w i j) \<and>
     (\<Sum>i \<leftarrow> window. \<Sum>j \<leftarrow> window. w i j) = 1"

text \<open>
  An already-binary image, with every pixel at one of the two values the binarizer
  produces, and a well-formed one, with all rows of one length.
\<close>

definition binary_image :: "gray_image \<Rightarrow> bool" where
  "binary_image g \<longleftrightarrow> (\<forall>row \<in> set g. \<forall>v \<in> set row. v = 0 \<or> v = 255)"

definition rectangular :: "gray_image \<Rightarrow> bool" where
  "rectangular g \<longleftrightarrow> (\<forall>row \<in> set g. length row = length (hd g))"

section \<open>A stand-in for OpenCV, for closed examples\<close>

text \<open>
  To run the model on concrete inputs the operations of \<open>cv2\<close> need values. The
  stand-in keeps an image as the term of the operations applied to it, starting from a
  photo given by its height, its width and the contours its edge map shows. Areas are
  computed by the shoelace formula, perimeters as sums of side lengths, and a contour is
  taken to be in simplified form already. No theorem about the notebook depends on it:
  it only shows that their hypotheses can be met.
\<close>

datatype sim_mat = Homography "point list" "point list"

datatype sim_img =
    Photo "32 word" "32 word" "contour list"
  | Resized sim_img "int \<times> int"
  | Converted sim_img color_code
  | Blurred sim_img
  | Edges sim_img
  | Dilated sim_img
  | Eroded sim_img
  | Warped sim_img sim_mat "int \<times> int"
  | Thresholded sim_img

fun sim_shape :: "sim_img \<Rightarrow> 32 word \<times> 32 word" where
  "sim_shape (Photo r c cs) = (r, c)"
| "sim_shape (Resized i d) = (word_of_int (snd d), word_of_int (fst d))"
| "sim_shape (Converted i k) = sim_shape i"
| "sim_shape (Blurred i) = sim_shape i"
| "sim_shape (Edges i) = sim_shape i"
| "sim_shape (Dilated i) = sim_shape i"
| "sim_shape (Eroded i) = sim_shape i"
| "sim_shape (Warped i m d) = (word_of_int (snd d), word_of_int (fst d))"
| "sim_shape (Thresholded i) = sim_shape i"

fun sim_contours :: "sim_img \<Rightarrow> contour list" where
  "sim_contours (Photo r c cs) = cs"
| "sim_contours (Resized i d) = sim_contours i"
| "sim_contours (Converted i k) = sim_contours i"
| "sim_contours (Blurred i) = sim_contours i"
| "sim_contours (Edges i) = sim_contours i"
| "sim_contours (Dilated i) = sim_contours i"
| "sim_contours (Eroded i) = sim_contours i"
| "sim_contours (Warped i m d) = []"
| "sim_contours (Thresholded i) = sim_contours i"

definition shoelace :: "contour \<Rightarrow> int" where
  "shoelace c =
     (\<Sum>e \<leftarrow> zip c (rotate1 c).
        sint (fst (fst e)) * sint (snd (snd e)) - sint (fst (snd e)) * sint (snd (fst e)))"

definition perimeter :: "contour \<Rightarrow> real" where
  "perimeter c =
     (\<Sum>e \<leftarrow> zip c (rotate1 c).
        sqrt ((real_of_int (sint (fst (fst e)) - sint (fst (snd e))))\<^sup>2 +
              (real_of_int (sint (snd (fst e)) - sint (snd (snd e))))\<^sup>2))"

definition sim_cv :: "(sim_img, sim_mat) cv2" where
  "sim_cv =
     \<lparr> shape = sim_shape,
       resize = Resized,
       cvtColor = Converted,
       GaussianBlur = (\<lambda>i k s. Blurred i),
       Canny = (\<lambda>i lo hi. Edges i),
       dilate = (\<lambda>i k n. Dilated i),
       erode = (\<lambda>i k n. Eroded i),
       findContours = sim_contours,
       contourArea = (\<lambda>c. \<bar>real_of_int (shoelace c)\<bar> / 2),
       arcLength = (\<lambda>c closed. perimeter c),
       approxPolyDP = (\<lambda>c eps closed. c),
       getPerspectiveTransform = Homography,
       warpPerspective = Warped,
       adaptiveThreshold = (\<lambda>i v m t b c. Thresholded i) \<rparr>"

text \<open>
  A 1000 x 800 photo of a sheet on a desk: the largest contour is the five-sided outline
  of the desk, the second the sheet, then a triangle, a small square, a small
  triangle and two specks.
\<close>

definition desk :: contour where
  "desk = [(0, 0), (40, 0), (45, 20), (40, 40), (0, 40)]"

definition sheet :: contour where
  "sheet = [(5, 5), (35, 6), (34, 38), (6, 37)]"

definition desk_photo :: sim_img where
  "desk_photo =
     Photo 1000 800
       [[(1, 1), (2, 1), (2, 2)],
        [(10, 10), (20, 10), (20, 20), (10, 20)],
        sheet,
        [(0, 0), (3, 0), (0, 3)],
        [(0, 0), (30, 0), (0, 30)],
        desk,
        [(7, 7), (8, 7), (8, 8), (7, 8)]]"

text \<open>A photo with two contours, neither of them four-sided.\<close>

definition cluttered_photo :: sim_img where
  "cluttered_photo = Photo 1000 800 [[(0, 0), (3, 0), (0, 3)], desk]"

text \<open>A photo without any edge: nothing for \<^verbatim>\<open>findContours\<close> to find.\<close>

definition blank_photo :: sim_img where
  "blank_photo = Photo 1000 800 []"

text \<open>
  A 270 x 540 photo of a receipt, whose edge map shows the one rectangle
  \<open>(7,10), (107,10), (107,60), (7,60)\<close>.
\<close>

definition receipt :: contour where
  "receipt = [(7, 10), (107, 10), (107, 60), (7, 60)]"

definition receipt_photo :: sim_img where
  "receipt_photo = Photo 270 540 [receipt]"

section \<open>Properties of rounding\<close>

lemma pow2_powr: "pow2 k = 2 powr (real_of_int k)"
proof (cases "0 \<le> k")
  case True
  then have "2 powr (real_of_int k) = 2 powr (real (nat k))" by simp
  also have "\<dots> = 2 ^ nat k" by (rule powr_realpow) simp
  finally show ?thesis using True by (simp add: pow2_def)
next
  case False
  then have "2 powr (real_of_int k) = 2 powr (- real (nat (- k)))" by simp
  also have "\<dots> = 1 / 2 powr (real (nat (- k)))" by (simp add: powr_minus divide_inverse)
  also have "2 powr (real (nat (- k))) = 2 ^ nat (- k)" by (rule powr_realpow) simp
  finally show ?thesis using False by (simp add: pow2_def)
qed

lemma pow2_pos [simp]: "0 < pow2 k"
  by (simp add: pow2_powr)

lemma pow2_neq0 [simp]: "pow2 k \<noteq> 0"
  using pow2_pos[of k] by linarith

lemma pow2_nonneg [simp]: "0 \<le> pow2 k"
  by (simp add: pow2_powr)

lemma pow2_add: "pow2 (a + b) = pow2 a * pow2 b"
  by (simp add: pow2_powr powr_add)

lemma pow2_diff: "pow2 (a - b) = pow2 a / pow2 b"
  by (simp add: pow2_powr powr_diff)

lemma pow2_0 [simp]: "pow2 0 = 1"
  by (simp add: pow2_def)

lemma pow2_1 [simp]: "pow2 1 = 2"
  by (simp add: pow2_def)

lemma pow2_nat: "pow2 (int n) = 2 ^ n"
  by (simp add: pow2_def)

lemma pow2_le_iff [simp]: "pow2 a \<le> pow2 b \<longleftrightarrow> a \<le> b"
  by (simp add: pow2_powr)

lemma pow2_less_iff [simp]: "pow2 a < pow2 b \<longleftrightarrow> a < b"
  by (simp add: pow2_powr)

lemma pow2_of_int: "0 \<le> k \<Longrightarrow> pow2 k = real_of_int (2 ^ nat k)"
  by (simp add: pow2_def)

lemma expo_bounds:
  assumes "x \<noteq> 0"
  shows "pow2 (expo x) \<le> \<bar>x\<bar>" and "\<bar>x\<bar> < pow2 (expo x + 1)"
proof -
  from assms have pos: "0 < \<bar>x\<bar>" by simp
  have "real_of_int (expo x) \<le> log 2 \<bar>x\<bar>" by (simp add: expo_def)
  then show "pow2 (expo x) \<le> \<bar>x\<bar>"
    using pos by (simp add: pow2_powr le_log_iff)
  have "log 2 \<bar>x\<bar> < real_of_int (expo x + 1)" by (simp add: expo_def)
  then show "\<bar>x\<bar> < pow2 (expo x + 1)"
    using pos unfolding pow2_powr by (subst (asm) log_less_iff) auto
qed

lemma expo_unique:
  assumes "pow2 e \<le> \<bar>x\<bar>" and "\<bar>x\<bar> < pow2 (e + 1)"
  shows "expo x = e"
proof -
  from assms(1) have pos: "0 < \<bar>x\<bar>" using pow2_pos[of e] by linarith
  have "real_of_int e \<le> log 2 \<bar>x\<bar>"
    using assms(1) pos by (simp add: pow2_powr le_log_iff)
  moreover have "log 2 \<bar>x\<bar> < real_of_int e + 1"
    using assms(2) pos unfolding pow2_powr by (subst log_less_iff) auto
  ultimately show ?thesis unfolding expo_def by (intro floor_unique) auto
qed

lemma expo_le:
  assumes "x \<noteq> 0" and "\<bar>x\<bar> \<le> pow2 k"
  shows "expo x \<le> k"
proof (rule ccontr)
  assume "\<not> expo x \<le> k"
  then have "k + 1 \<le> expo x" by simp
  then have "pow2 (k + 1) \<le> pow2 (expo x)" by simp
  also have "\<dots> \<le> \<bar>x\<bar>" using assms(1) by (rule expo_bounds)
  finally have "pow2 (k + 1) \<le> pow2 k" using assms(2) by linarith
  then show False by simp
qed

lemma expo_less:
  assumes "x \<noteq> 0" and "\<bar>x\<bar> < pow2 k"
  shows "expo x < k"
proof (rule ccontr)
  assume "\<not> expo x < k"
  then have "pow2 k \<le> pow2 (expo x)" by simp
  also have "\<dots> \<le> \<bar>x\<bar>" using assms(1) by (rule expo_bounds)
  finally show False using assms(2) by linarith
qed

lemma rne_error: "\<bar>real_of_int (rne q) - q\<bar> \<le> 1 / 2"
  unfolding rne_def Let_def by (auto simp: abs_le_iff)

lemma rne_of_int [simp]: "rne (real_of_int n) = n"
  by (simp add: rne_def)

lemma rne_0 [simp]: "rne 0 = 0"
  by (simp add: rne_def)

lemma rne_mono:
  assumes "q \<le> q'"
  shows "rne q \<le> rne q'"
proof (cases "\<lfloor>q\<rfloor> = \<lfloor>q'\<rfloor>")
  case True
  with assms show ?thesis unfolding rne_def Let_def by auto
next
  case False
  with assms have "\<lfloor>q\<rfloor> < \<lfloor>q'\<rfloor>" using floor_mono[OF assms] by linarith
  moreover have "rne q \<le> \<lfloor>q\<rfloor> + 1" unfolding rne_def Let_def by auto
  moreover have "\<lfloor>q'\<rfloor> \<le> rne q'" unfolding rne_def Let_def by auto
  ultimately show ?thesis by linarith
qed

lemma rne_minus: "rne (- q) = - rne q"
proof (cases "q = real_of_int \<lfloor>q\<rfloor>")
  case True
  then have "rne (- q) = rne (real_of_int (- \<lfloor>q\<rfloor>))" by simp
  also have "\<dots> = - \<lfloor>q\<rfloor>" by (rule rne_of_int)
  also have "\<dots> = - rne (real_of_int \<lfloor>q\<rfloor>)" by simp
  finally show ?thesis using True by simp
next
  case False
  define f where "f = \<lfloor>q\<rfloor>"
  define d where "d = q - real_of_int f"
  have d: "0 < d" "d < 1" using False unfolding d_def f_def by linarith+
  have q: "q = real_of_int f + d" by (simp add: d_def)
  have fl: "\<lfloor>- q\<rfloor> = - f - 1"
    using d unfolding q by (intro floor_unique) auto
  have r1: "rne q = (if d < 1 / 2 then f else if 1 / 2 < d then f + 1 else if even f then f else f + 1)"
    unfolding rne_def Let_def f_def[symmetric] d_def[symmetric] ..
  have "- q - real_of_int (- f - 1) = 1 - d" by (simp add: q)
  then have r2: "rne (- q) =
      (if 1 - d < 1 / 2 then - f - 1 else if 1 / 2 < 1 - d then - f - 1 + 1
       else if even (- f - 1) then - f - 1 else - f - 1 + 1)"
    unfolding rne_def Let_def fl by simp
  show ?thesis unfolding r1 r2 by auto
qed

lemma rne_le_int: "q \<le> real_of_int n \<Longrightarrow> rne q \<le> n"
  using rne_mono[of q "real_of_int n"] by simp

lemma rne_ge_int: "real_of_int n \<le> q \<Longrightarrow> n \<le> rne q"
  using rne_mono[of "real_of_int n" q] by simp

lemma prec_pos: "0 < prec f"
  by (cases f) simp_all

lemma emin_le_emax: "emin f \<le> emax f"
  by (cases f) (simp_all add: emin_def)

lemma round_fl_rounded:
  "round_fl f x =
     (if x = 0 then Fin 0
      else if pow2 (emax f + 1) \<le> \<bar>rounded f x\<bar> then (if 0 < x then PInf else NInf)
      else Fin (rounded f x))"
  by (simp add: round_fl_def rounded_def Let_def)

lemma rounded_error:
  assumes "x \<noteq> 0"
  shows "\<bar>rounded f x - x\<bar> \<le> pow2 (max (expo x) (emin f) - prec f)"
proof -
  let ?u = "pow2 (max (expo x) (emin f) - prec f + 1)"
  have u: "0 < ?u" by simp
  have "rounded f x - x = (real_of_int (rne (x / ?u)) - x / ?u) * ?u"
    using u by (simp add: rounded_def Let_def algebra_simps)
  then have "\<bar>rounded f x - x\<bar> = \<bar>real_of_int (rne (x / ?u)) - x / ?u\<bar> * ?u"
    using u by (simp add: abs_mult)
  also have "\<dots> \<le> 1 / 2 * ?u"
    using rne_error[of "x / ?u"] u by (intro mult_right_mono) auto
  also have "\<dots> = pow2 (max (expo x) (emin f) - prec f)"
    by (simp add: pow2_add)
  finally show ?thesis .
qed

lemma rounded_bound:
  assumes "\<bar>x\<bar> \<le> pow2 k" and "emin f \<le> k"
  shows "\<bar>rounded f x\<bar> \<le> pow2 k"
proof (cases "x = 0")
  case True
  then show ?thesis by (simp add: rounded_def)
next
  case False
  let ?e = "max (expo x) (emin f)"
  let ?u = "pow2 (?e - prec f + 1)"
  have e: "?e \<le> k" using expo_le[OF False assms(1)] assms(2) by simp
  define j where "j = k - ?e + prec f - 1"
  have j: "0 \<le> j" using e prec_pos[of f] unfolding j_def by linarith
  have N: "pow2 k = real_of_int (2 ^ nat j) * ?u"
  proof -
    have "pow2 k = pow2 (j + (?e - prec f + 1))" by (simp add: j_def)
    also have "\<dots> = pow2 j * ?u" by (rule pow2_add)
    finally show ?thesis using j by (simp add: pow2_of_int)
  qed
  have u: "0 < ?u" by simp
  have "x / ?u \<le> real_of_int (2 ^ nat j)"
    using assms(1) u N by (simp add: pos_divide_le_eq abs_le_iff)
  then have up: "rne (x / ?u) \<le> 2 ^ nat j" by (rule rne_le_int)
  have "real_of_int (- (2 ^ nat j)) \<le> x / ?u"
    using assms(1) u N by (simp add: pos_le_divide_eq abs_le_iff)
  then have lo: "- (2 ^ nat j) \<le> rne (x / ?u)" by (rule rne_ge_int)
  from up lo have "\<bar>rne (x / ?u)\<bar> \<le> 2 ^ nat j" by linarith
  then have "real_of_int \<bar>rne (x / ?u)\<bar> \<le> real_of_int (2 ^ nat j)"
    by (simp only: of_int_le_iff)
  then have "\<bar>real_of_int (rne (x / ?u))\<bar> \<le> real_of_int (2 ^ nat j)"
    by simp
  then have "\<bar>real_of_int (rne (x / ?u))\<bar> * ?u \<le> real_of_int (2 ^ nat j) * ?u"
    using u by (intro mult_right_mono) auto
  then show ?thesis
    using u by (simp add: rounded_def Let_def abs_mult N)
qed

lemma rounded_sign:
  "0 \<le> x \<Longrightarrow> 0 \<le> rounded f x"
proof -
  assume x: "0 \<le> x"
  let ?u = "pow2 (max (expo x) (emin f) - prec f + 1)"
  have "real_of_int 0 \<le> x / ?u" using x by simp
  then have "0 \<le> rne (x / ?u)" by (rule rne_ge_int)
  then show ?thesis by (simp add: rounded_def Let_def)
qed

lemma rounded_representable:
  assumes "x = real_of_int m * pow2 k" and "\<bar>m\<bar> < 2 ^ nat (prec f)" and "emin f - prec f + 1 \<le> k"
  shows "rounded f x = x"
proof (cases "x = 0")
  case True
  then show ?thesis by (simp add: rounded_def)
next
  case False
  let ?e = "max (expo x) (emin f)"
  let ?u = "pow2 (?e - prec f + 1)"
  have "\<bar>x\<bar> = \<bar>real_of_int m\<bar> * pow2 k" by (simp add: assms(1) abs_mult)
  also have "\<dots> < real_of_int (2 ^ nat (prec f)) * pow2 k"
    using assms(2) by (intro mult_strict_right_mono) (simp_all flip: of_int_abs)
  also have "\<dots> = pow2 (prec f + k)"
    using prec_pos[of f] by (simp add: pow2_add pow2_of_int)
  finally have "expo x < prec f + k" using False by (intro expo_less)
  with assms(3) have e: "?e - prec f + 1 \<le> k" by simp
  define j where "j = k - (?e - prec f + 1)"
  have j: "0 \<le> j" using e by (simp add: j_def)
  have "pow2 k = pow2 (j + (?e - prec f + 1))" by (simp add: j_def)
  also have "\<dots> = real_of_int (2 ^ nat j) * ?u" using j by (simp add: pow2_add pow2_of_int)
  finally have "pow2 k / ?u = real_of_int (2 ^ nat j)"
    by simp
  then have "x / ?u = real_of_int (m * 2 ^ nat j)"
    unfolding assms(1) by (simp only: times_divide_eq_right[symmetric] of_int_mult)
  then have "real_of_int (rne (x / ?u)) * ?u = x / ?u * ?u"
    by (simp only: rne_of_int)
  then show ?thesis by (simp add: rounded_def Let_def)
qed

lemma round_fl_bounded:
  assumes "\<bar>x\<bar> \<le> pow2 k" and "emin f \<le> k" and "k \<le> emax f"
  shows "\<exists>r. round_fl f x = Fin r \<and> \<bar>r\<bar> \<le> pow2 k \<and> (0 \<le> x \<longrightarrow> 0 \<le> r) \<and> (x \<le> 0 \<longrightarrow> r \<le> 0)"
proof -
  have b: "\<bar>rounded f x\<bar> \<le> pow2 k" using assms(1,2) by (rule rounded_bound)
  also have "pow2 k < pow2 (emax f + 1)" using assms(3) by simp
  finally have "\<not> pow2 (emax f + 1) \<le> \<bar>rounded f x\<bar>" by simp
  then have r: "round_fl f x = Fin (rounded f x)"
    by (simp add: round_fl_rounded rounded_def)
  have neg: "rounded f (- x) = - rounded f x"
    by (simp add: rounded_def Let_def expo_def rne_minus)
  have "0 \<le> x \<longrightarrow> 0 \<le> rounded f x" by (simp add: rounded_sign)
  moreover have "x \<le> 0 \<longrightarrow> rounded f x \<le> 0"
    using rounded_sign[of "- x" f] neg by auto
  ultimately show ?thesis using r b by blast
qed

lemma round_fl_exact:
  assumes "x = real_of_int m * pow2 k" and "\<bar>m\<bar> < 2 ^ nat (prec f)"
    and "emin f - prec f + 1 \<le> k" and "\<bar>x\<bar> < pow2 (emax f + 1)"
  shows "round_fl f x = Fin x"
  using rounded_representable[OF assms(1-3)] assms(4) by (simp add: round_fl_rounded)

lemma round_fl_int:
  assumes "\<bar>n\<bar> < 2 ^ nat (prec f)"
  shows "round_fl f (real_of_int n) = Fin (real_of_int n)"
proof (rule round_fl_exact[where m = n and k = 0])
  show "real_of_int n = real_of_int n * pow2 0" by simp
  show "\<bar>n\<bar> < 2 ^ nat (prec f)" by fact
  show "emin f - prec f + 1 \<le> 0" by (cases f) (simp_all add: emin_def)
  have "real_of_int \<bar>n\<bar> < real_of_int (2 ^ nat (prec f))"
    using assms by (simp only: of_int_less_iff)
  also have "\<dots> = pow2 (prec f)" using prec_pos[of f] by (simp add: pow2_of_int)
  also have "\<dots> \<le> pow2 (emax f + 1)" by (cases f) simp_all
  finally show "\<bar>real_of_int n\<bar> < pow2 (emax f + 1)" by simp
qed

lemma round_fl_eval:
  assumes "pow2 e \<le> \<bar>x\<bar>" and "\<bar>x\<bar> < pow2 (e + 1)" and "emin f \<le> e"
    and "rne (x / pow2 (e - prec f + 1)) = n"
    and "\<bar>real_of_int n * pow2 (e - prec f + 1)\<bar> < pow2 (emax f + 1)"
  shows "round_fl f x = Fin (real_of_int n * pow2 (e - prec f + 1))"
proof -
  have nz: "x \<noteq> 0"
  proof
    assume "x = 0"
    with assms(1) have "pow2 e \<le> 0" by simp
    with pow2_pos[of e] show False by linarith
  qed
  have e: "expo x = e" using assms(1,2) by (rule expo_unique)
  have "rounded f x = real_of_int n * pow2 (e - prec f + 1)"
    using assms(3,4) by (simp add: rounded_def Let_def e max_def)
  with assms(5) nz show ?thesis by (simp add: round_fl_rounded)
qed

lemma round_fl_overflow:
  assumes "pow2 (emax f + 1) \<le> x"
  shows "round_fl f x = PInf"
proof -
  have pos: "0 < x" using assms pow2_pos[of "emax f + 1"] by linarith
  then have nz: "x \<noteq> 0" by simp
  have le: "pow2 (emax f + 1) \<le> \<bar>x\<bar>" using assms pos by simp
  have ex: "emax f + 1 \<le> expo x"
  proof (rule ccontr)
    assume "\<not> emax f + 1 \<le> expo x"
    then have "expo x + 1 \<le> emax f + 1" by simp
    then have "pow2 (expo x + 1) \<le> pow2 (emax f + 1)" by simp
    with expo_bounds(2)[OF nz] le show False by linarith
  qed
  then have m: "max (expo x) (emin f) = expo x" using emin_le_emax[of f] by simp
  let ?u = "pow2 (expo x - prec f + 1)"
  have "pow2 (expo x) = real_of_int (2 ^ nat (prec f - 1)) * ?u"
  proof -
    have "pow2 (expo x) = pow2 ((prec f - 1) + (expo x - prec f + 1))" by simp
    also have "\<dots> = pow2 (prec f - 1) * ?u" by (rule pow2_add)
    finally show ?thesis using prec_pos[of f] by (simp add: pow2_of_int)
  qed
  then have "real_of_int (2 ^ nat (prec f - 1)) \<le> x / ?u"
    using expo_bounds(1)[OF nz] pos by (simp add: pos_le_divide_eq)
  then have "2 ^ nat (prec f - 1) \<le> rne (x / ?u)" by (rule rne_ge_int)
  then have "real_of_int (2 ^ nat (prec f - 1)) \<le> real_of_int (rne (x / ?u))"
    by (simp only: of_int_le_iff)
  then have "real_of_int (2 ^ nat (prec f - 1)) * ?u \<le> real_of_int (rne (x / ?u)) * ?u"
    by (intro mult_right_mono) auto
  with \<open>pow2 (expo x) = real_of_int (2 ^ nat (prec f - 1)) * ?u\<close>
  have "pow2 (expo x) \<le> rounded f x" by (simp add: rounded_def Let_def m)
  moreover have "pow2 (emax f + 1) \<le> pow2 (expo x)" using ex by simp
  ultimately have "pow2 (emax f + 1) \<le> \<bar>rounded f x\<bar>" by linarith
  with pos nz show ?thesis by (simp add: round_fl_rounded)
qed

lemma round_fl_error:
  assumes "round_fl f x = Fin r"
  shows "\<bar>r - x\<bar> \<le> pow2 (- prec f) * \<bar>x\<bar> + pow2 (emin f - prec f)"
proof (cases "x = 0")
  case True
  with assms show ?thesis by (simp add: round_fl_def)
next
  case False
  from assms False have r: "r = rounded f x"
    by (auto simp: round_fl_rounded split: if_splits)
  have "\<bar>r - x\<bar> \<le> pow2 (max (expo x) (emin f) - prec f)"
    unfolding r using False by (rule rounded_error)
  also have "\<dots> \<le> pow2 (- prec f) * \<bar>x\<bar> + pow2 (emin f - prec f)"
  proof (cases "emin f \<le> expo x")
    case True
    then have "pow2 (max (expo x) (emin f) - prec f) = pow2 (- prec f) * pow2 (expo x)"
      by (simp add: max_def flip: pow2_add)
    also have "\<dots> \<le> pow2 (- prec f) * \<bar>x\<bar>"
      using expo_bounds(1)[OF False] by (intro mult_left_mono) auto
    finally show ?thesis using pow2_pos[of "emin f - prec f"] by linarith
  next
    case False
    then have "pow2 (max (expo x) (emin f) - prec f) = pow2 (emin f - prec f)"
      by (simp add: max_def)
    then show ?thesis using pow2_pos[of "- prec f"] by simp
  qed
  finally show ?thesis .
qed

lemma round_fl_positive:
  assumes "pow2 k \<le> x" and "emin f \<le> k" and "round_fl f x = Fin r"
  shows "pow2 k \<le> r"
proof -
  have pos: "0 < x" using assms(1) pow2_pos[of k] by linarith
  then have nz: "x \<noteq> 0" by simp
  from assms(3) nz have r: "r = rounded f x"
    by (auto simp: round_fl_rounded split: if_splits)
  have "k \<le> expo x"
  proof (rule ccontr)
    assume "\<not> k \<le> expo x"
    then have "pow2 (expo x + 1) \<le> pow2 k" by simp
    with expo_bounds(2)[OF nz] assms(1) pos show False by simp
  qed
  with assms(2) have m: "max (expo x) (emin f) = expo x" by simp
  let ?u = "pow2 (expo x - prec f + 1)"
  define j where "j = k - (expo x - prec f + 1)"
  show ?thesis
  proof (cases "0 \<le> j")
    case True
    have "pow2 k = pow2 (j + (expo x - prec f + 1))" by (simp add: j_def)
    also have "\<dots> = real_of_int (2 ^ nat j) * ?u" using True by (simp add: pow2_add pow2_of_int)
    finally have N: "pow2 k = real_of_int (2 ^ nat j) * ?u" .
    then have "real_of_int (2 ^ nat j) \<le> x / ?u"
      using assms(1) by (simp add: pos_le_divide_eq)
    then have "2 ^ nat j \<le> rne (x / ?u)" by (rule rne_ge_int)
    then have "real_of_int (2 ^ nat j) \<le> real_of_int (rne (x / ?u))"
      by (simp only: of_int_le_iff)
    then have "real_of_int (2 ^ nat j) * ?u \<le> real_of_int (rne (x / ?u)) * ?u"
      by (intro mult_right_mono) auto
    then show ?thesis by (simp add: r rounded_def Let_def m N)
  next
    case False
    then have "k < expo x - prec f + 1" by (simp add: j_def)
    then have "pow2 k \<le> pow2 (expo x - prec f + 1)" by simp
    moreover have "pow2 (expo x) \<le> rounded f x"
    proof -
      have P: "pow2 (expo x) = real_of_int (2 ^ nat (prec f - 1)) * ?u"
      proof -
        have "pow2 (expo x) = pow2 ((prec f - 1) + (expo x - prec f + 1))" by simp
        also have "\<dots> = pow2 (prec f - 1) * ?u" by (rule pow2_add)
        finally show ?thesis using prec_pos[of f] by (simp add: pow2_of_int)
      qed
      then have "real_of_int (2 ^ nat (prec f - 1)) \<le> x / ?u"
        using expo_bounds(1)[OF nz] pos by (simp add: pos_le_divide_eq)
      then have "2 ^ nat (prec f - 1) \<le> rne (x / ?u)" by (rule rne_ge_int)
      then have "real_of_int (2 ^ nat (prec f - 1)) \<le> real_of_int (rne (x / ?u))"
        by (simp only: of_int_le_iff)
      then have "real_of_int (2 ^ nat (prec f - 1)) * ?u \<le> real_of_int (rne (x / ?u)) * ?u"
        by (intro mult_right_mono) auto
      with P show ?thesis by (simp add: rounded_def Let_def m)
    qed
    moreover have "pow2 (expo x - prec f + 1) \<le> pow2 (expo x)" using prec_pos[of f] by simp
    ultimately show ?thesis unfolding r by linarith
  qed
qed

lemma rne_near:
  assumes "real_of_int n - 1 / 2 < q" and "q < real_of_int n + 1 / 2"
  shows "rne q = n"
proof -
  have "\<lfloor>q\<rfloor> = n \<or> \<lfloor>q\<rfloor> = n - 1" using assms by linarith
  then show ?thesis
  proof
    assume f: "\<lfloor>q\<rfloor> = n"
    then have "q - real_of_int \<lfloor>q\<rfloor> < 1 / 2" using assms by simp
    then show ?thesis using f by (simp add: rne_def Let_def)
  next
    assume f: "\<lfloor>q\<rfloor> = n - 1"
    then have "1 / 2 < q - real_of_int \<lfloor>q\<rfloor>" using assms by simp
    then show ?thesis using f by (simp add: rne_def Let_def)
  qed
qed

lemma round_fl_sqrt_eval:
  assumes "(pow2 e)\<^sup>2 \<le> y" and "y < (pow2 (e + 1))\<^sup>2" and "emin f \<le> e"
    and "1 \<le> n"
    and "((real_of_int n - 1 / 2) * pow2 (e - prec f + 1))\<^sup>2 < y"
    and "y < ((real_of_int n + 1 / 2) * pow2 (e - prec f + 1))\<^sup>2"
    and "\<bar>real_of_int n * pow2 (e - prec f + 1)\<bar> < pow2 (emax f + 1)"
  shows "round_fl f (sqrt y) = Fin (real_of_int n * pow2 (e - prec f + 1))"
proof (rule round_fl_eval)
  let ?u = "pow2 (e - prec f + 1)"
  have y0: "0 \<le> y" using assms(1) zero_le_power2[of "pow2 e"] by linarith
  have "pow2 e \<le> sqrt y" using assms(1) by (intro real_le_rsqrt)
  then show "pow2 e \<le> \<bar>sqrt y\<bar>" by simp
  have "sqrt y < pow2 (e + 1)" using assms(2) by (intro real_less_lsqrt) simp_all
  then show "\<bar>sqrt y\<bar> < pow2 (e + 1)" using y0 by simp
  show "emin f \<le> e" by fact
  have n12: "0 \<le> (real_of_int n - 1 / 2) * ?u" using assms(4) by simp
  have "(real_of_int n - 1 / 2) * ?u < sqrt y"
    using assms(5) n12 by (intro real_less_rsqrt)
  then have lo: "real_of_int n - 1 / 2 < sqrt y / ?u" by (simp add: pos_less_divide_eq)
  have "sqrt y < (real_of_int n + 1 / 2) * ?u"
    using assms(6,4) by (intro real_less_lsqrt) simp_all
  then have hi: "sqrt y / ?u < real_of_int n + 1 / 2" by (simp add: pos_divide_less_eq)
  from lo hi show "rne (sqrt y / ?u) = n" by (rule rne_near)
  show "\<bar>real_of_int n * ?u\<bar> < pow2 (emax f + 1)" by fact
qed

section \<open>Properties of the corner ordering\<close>

lemma fl_le_refl: "a \<noteq> NaN \<Longrightarrow> fl_le a a"
  by (cases a) simp_all

lemma fl_le_trans: "fl_le a b \<Longrightarrow> fl_le b c \<Longrightarrow> fl_le a c"
  by (cases a; cases b; cases c) simp_all

lemma fl_le_total: "a \<noteq> NaN \<Longrightarrow> b \<noteq> NaN \<Longrightarrow> fl_le a b \<or> fl_le b a"
  by (cases a; cases b) auto

lemma round_fl_not_NaN [simp]: "round_fl f x \<noteq> NaN"
  by (simp add: round_fl_def Let_def)

lemma argmin_less_length: "xs \<noteq> [] \<Longrightarrow> argmin xs < length xs"
  by (induction xs rule: argmin.induct) (auto simp: Let_def)

lemma argmax_less_length: "xs \<noteq> [] \<Longrightarrow> argmax xs < length xs"
  by (induction xs rule: argmax.induct) (auto simp: Let_def)

lemma argmin_least: "NaN \<notin> set xs \<Longrightarrow> v \<in> set xs \<Longrightarrow> fl_le (xs ! argmin xs) v"
proof (induction xs arbitrary: v rule: argmin.induct)
  case (2 x)
  then show ?case by (simp add: fl_le_refl)
next
  case (3 x y ys)
  let ?m = "(y # ys) ! argmin (y # ys)"
  from "3.prems" have x: "x \<noteq> NaN" and nn: "NaN \<notin> set (y # ys)" by auto
  have mem: "?m \<in> set (y # ys)"
    by (rule nth_mem, rule argmin_less_length) simp
  with nn have m: "?m \<noteq> NaN" by metis
  have rest: "fl_le ?m w" if "w \<in> set (y # ys)" for w
    using "3.IH"[OF x nn that] .
  have eq: "(x # y # ys) ! argmin (x # y # ys) = (if fl_le x ?m then x else ?m)"
    using x m by (simp add: Let_def)
  show ?case
  proof (cases "fl_le x ?m")
    case True
    have "fl_le x v"
    proof (cases "v = x")
      case True
      then show ?thesis using x by (simp add: fl_le_refl)
    next
      case False
      with "3.prems"(2) have "v \<in> set (y # ys)" by simp
      from fl_le_trans[OF True rest[OF this]] show ?thesis .
    qed
    with True show ?thesis unfolding eq by simp
  next
    case False
    have "fl_le ?m v"
    proof (cases "v = x")
      case True
      then show ?thesis using False fl_le_total[OF x m] by simp
    next
      case False
      with "3.prems"(2) have "v \<in> set (y # ys)" by simp
      then show ?thesis by (rule rest)
    qed
    with False show ?thesis unfolding eq by simp
  qed
qed simp

lemma argmax_greatest: "NaN \<notin> set xs \<Longrightarrow> v \<in> set xs \<Longrightarrow> fl_le v (xs ! argmax xs)"
proof (induction xs arbitrary: v rule: argmax.induct)
  case (2 x)
  then show ?case by (simp add: fl_le_refl)
next
  case (3 x y ys)
  let ?m = "(y # ys) ! argmax (y # ys)"
  from "3.prems" have x: "x \<noteq> NaN" and nn: "NaN \<notin> set (y # ys)" by auto
  have mem: "?m \<in> set (y # ys)"
    by (rule nth_mem, rule argmax_less_length) simp
  with nn have m: "?m \<noteq> NaN" by metis
  have rest: "fl_le w ?m" if "w \<in> set (y # ys)" for w
    using "3.IH"[OF x nn that] .
  have eq: "(x # y # ys) ! argmax (x # y # ys) = (if fl_le ?m x then x else ?m)"
    using x m by (simp add: Let_def)
  show ?case
  proof (cases "fl_le ?m x")
    case True
    have "fl_le v x"
    proof (cases "v = x")
      case True
      then show ?thesis using x by (simp add: fl_le_refl)
    next
      case False
      with "3.prems"(2) have "v \<in> set (y # ys)" by simp
      from fl_le_trans[OF rest[OF this] True] show ?thesis .
    qed
    with True show ?thesis unfolding eq by simp
  next
    case False
    have "fl_le v ?m"
    proof (cases "v = x")
      case True
      then show ?thesis using False fl_le_total[OF m x] by simp
    next
      case False
      with "3.prems"(2) have "v \<in> set (y # ys)" by simp
      then show ?thesis by (rule rest)
    qed
    with False show ?thesis unfolding eq by simp
  qed
qed simp

lemma argmin_first:
  "NaN \<notin> set xs \<Longrightarrow> j < argmin xs \<Longrightarrow> \<not> fl_le (xs ! j) (xs ! argmin xs)"
proof (induction xs arbitrary: j rule: argmin.induct)
  case (3 x y ys)
  let ?m = "(y # ys) ! argmin (y # ys)"
  from "3.prems" have x: "x \<noteq> NaN" and nn: "NaN \<notin> set (y # ys)" by auto
  have mem: "?m \<in> set (y # ys)"
    by (rule nth_mem, rule argmin_less_length) simp
  with nn have m: "?m \<noteq> NaN" by metis
  have am: "argmin (x # y # ys) = (if fl_le x ?m then 0 else Suc (argmin (y # ys)))"
    using x m by (simp add: Let_def)
  show ?case
  proof (cases "fl_le x ?m")
    case True
    with "3.prems"(2) show ?thesis unfolding am by simp
  next
    case False
    show ?thesis
    proof (cases j)
      case 0
      with False show ?thesis unfolding am by simp
    next
      case (Suc k)
      with False "3.prems"(2) have "k < argmin (y # ys)" unfolding am by simp
      from "3.IH"[OF x nn this] have "\<not> fl_le ((y # ys) ! k) ?m" .
      with False Suc show ?thesis unfolding am by simp
    qed
  qed
qed simp_all

lemma argmax_first:
  "NaN \<notin> set xs \<Longrightarrow> j < argmax xs \<Longrightarrow> \<not> fl_le (xs ! argmax xs) (xs ! j)"
proof (induction xs arbitrary: j rule: argmax.induct)
  case (3 x y ys)
  let ?m = "(y # ys) ! argmax (y # ys)"
  from "3.prems" have x: "x \<noteq> NaN" and nn: "NaN \<notin> set (y # ys)" by auto
  have mem: "?m \<in> set (y # ys)"
    by (rule nth_mem, rule argmax_less_length) simp
  with nn have m: "?m \<noteq> NaN" by metis
  have am: "argmax (x # y # ys) = (if fl_le ?m x then 0 else Suc (argmax (y # ys)))"
    using x m by (simp add: Let_def)
  show ?case
  proof (cases "fl_le ?m x")
    case True
    with "3.prems"(2) show ?thesis unfolding am by simp
  next
    case False
    show ?thesis
    proof (cases j)
      case 0
      with False show ?thesis unfolding am by simp
    next
      case (Suc k)
      with False "3.prems"(2) have "k < argmax (y # ys)" unfolding am by simp
      from "3.IH"[OF x nn this] have "\<not> fl_le ?m ((y # ys) ! k)" .
      with False Suc show ?thesis unfolding am by simp
    qed
  qed
qed simp_all

lemma round_fl_0 [simp]: "round_fl f 0 = Fin 0"
  by (simp add: round_fl_def)

lemma round_fl_numeral:
  "(numeral k :: int) < 2 ^ 24 \<Longrightarrow> round_fl f (numeral k) = Fin (numeral k)"
proof -
  assume a: "(numeral k :: int) < 2 ^ 24"
  have "\<bar>numeral k :: int\<bar> = numeral k" by simp
  also note a
  also have "(2::int) ^ 24 \<le> 2 ^ nat (prec f)" by (cases f) simp_all
  finally have "\<bar>numeral k :: int\<bar> < 2 ^ nat (prec f)" .
  from round_fl_int[OF this] show ?thesis by simp
qed

lemma round_fl_neg_numeral:
  "(numeral k :: int) < 2 ^ 24 \<Longrightarrow> round_fl f (- numeral k) = Fin (- numeral k)"
proof -
  assume a: "(numeral k :: int) < 2 ^ 24"
  have "\<bar>- numeral k :: int\<bar> = numeral k" by simp
  also note a
  also have "(2::int) ^ 24 \<le> 2 ^ nat (prec f)" by (cases f) simp_all
  finally have "\<bar>- numeral k :: int\<bar> < 2 ^ nat (prec f)" .
  from round_fl_int[OF this] show ?thesis by simp
qed

lemma round_fl_1 [simp]: "round_fl f 1 = Fin 1"
proof -
  have "\<bar>1 :: int\<bar> < 2 ^ nat (prec f)" by (cases f) simp_all
  from round_fl_int[OF this] show ?thesis by simp
qed

lemma round_fl_neg_1 [simp]: "round_fl f (- 1) = Fin (- 1)"
proof -
  have "\<bar>- 1 :: int\<bar> < 2 ^ nat (prec f)" by (cases f) simp_all
  from round_fl_int[OF this] show ?thesis by simp
qed

lemmas round_small = round_fl_numeral round_fl_neg_numeral

lemma fl_sub_Fin [simp]: "fl_sub f (Fin x) (Fin y) = round_fl f (x - y)"
  by (simp add: fl_sub_def)

lemma order_points_eq:
  "pts \<noteq> [] \<Longrightarrow>
   order_points pts =
     Inr [astype32 (pts ! argmin (sum_axis1 pts)), astype32 (pts ! argmin (diff_axis1 pts)),
          astype32 (pts ! argmax (sum_axis1 pts)), astype32 (pts ! argmax (diff_axis1 pts))]"
  by (simp add: order_points_def Let_def)

lemma row_sum_not_NaN: "finite_point p \<Longrightarrow> row_sum p \<noteq> NaN"
  by (auto simp: finite_point_def row_sum_def)

lemma row_diff_not_NaN: "finite_point p \<Longrightarrow> row_diff p \<noteq> NaN"
  by (auto simp: finite_point_def row_diff_def)

lemma small_int_exact:
  assumes "\<bar>n\<bar> < (2::int) ^ 26"
  shows "round_fl Binary64 (real_of_int n) = Fin (real_of_int n)"
proof -
  have "\<bar>n\<bar> < 2 ^ nat (prec Binary64)" using assms by simp
  then show ?thesis by (rule round_fl_int)
qed

lemma pixel_int_exact32:
  assumes "\<bar>n\<bar> < (2::int) ^ 24"
  shows "round_fl Binary32 (real_of_int n) = Fin (real_of_int n)"
proof -
  have "\<bar>n\<bar> < 2 ^ nat (prec Binary32)" using assms by simp
  then show ?thesis by (rule round_fl_int)
qed

lemma pixel_point_facts:
  assumes "pixel_point p"
  shows "finite_point p" and "row_sum p = Fin (exact_sum p)"
    and "row_diff p = Fin (- exact_diff p)" and "astype32 p = p"
proof -
  from assms obtain m n :: int where mn: "\<bar>m\<bar> < 2 ^ 24" "\<bar>n\<bar> < 2 ^ 24"
    and p: "p = (Fin (real_of_int m), Fin (real_of_int n))"
    by (auto simp: pixel_point_def)
  show "finite_point p" by (auto simp: p finite_point_def)
  have "\<bar>m + n\<bar> < 2 ^ 26" "\<bar>n - m\<bar> < 2 ^ 26" using mn by simp_all
  from small_int_exact[OF this(1)] small_int_exact[OF this(2)]
  show "row_sum p = Fin (exact_sum p)" "row_diff p = Fin (- exact_diff p)"
    by (simp_all add: p row_sum_def row_diff_def exact_sum_def exact_diff_def)
  show "astype32 p = p"
    using pixel_int_exact32[OF mn(1)] pixel_int_exact32[OF mn(2)] by (simp add: p astype32_def)
qed

lemma argmin_map_props:
  assumes "pts \<noteq> []" and "\<forall>p \<in> set pts. g p \<noteq> NaN"
  shows "argmin (map g pts) < length pts"
    and "\<forall>k<length pts. fl_le (g (pts ! argmin (map g pts))) (g (pts ! k))"
    and "\<forall>k<argmin (map g pts). \<not> fl_le (g (pts ! k)) (g (pts ! argmin (map g pts)))"
proof -
  from assms(1) have ne: "map g pts \<noteq> []" by simp
  from assms(2) have nn: "NaN \<notin> set (map g pts)" by auto
  show lt: "argmin (map g pts) < length pts"
    using argmin_less_length[OF ne] by simp
  show "\<forall>k<length pts. fl_le (g (pts ! argmin (map g pts))) (g (pts ! k))"
  proof (intro allI impI)
    fix k assume k: "k < length pts"
    then have "g (pts ! k) \<in> set (map g pts)" by simp
    from argmin_least[OF nn this] lt show "fl_le (g (pts ! argmin (map g pts))) (g (pts ! k))"
      by simp
  qed
  show "\<forall>k<argmin (map g pts). \<not> fl_le (g (pts ! k)) (g (pts ! argmin (map g pts)))"
  proof (intro allI impI)
    fix k assume k: "k < argmin (map g pts)"
    from argmin_first[OF nn this] lt k
    show "\<not> fl_le (g (pts ! k)) (g (pts ! argmin (map g pts)))" by simp
  qed
qed

lemma argmax_map_props:
  assumes "pts \<noteq> []" and "\<forall>p \<in> set pts. g p \<noteq> NaN"
  shows "argmax (map g pts) < length pts"
    and "\<forall>k<length pts. fl_le (g (pts ! k)) (g (pts ! argmax (map g pts)))"
    and "\<forall>k<argmax (map g pts). \<not> fl_le (g (pts ! argmax (map g pts))) (g (pts ! k))"
proof -
  from assms(1) have ne: "map g pts \<noteq> []" by simp
  from assms(2) have nn: "NaN \<notin> set (map g pts)" by auto
  show lt: "argmax (map g pts) < length pts"
    using argmax_less_length[OF ne] by simp
  show "\<forall>k<length pts. fl_le (g (pts ! k)) (g (pts ! argmax (map g pts)))"
  proof (intro allI impI)
    fix k assume k: "k < length pts"
    then have "g (pts ! k) \<in> set (map g pts)" by simp
    from argmax_greatest[OF nn this] lt show "fl_le (g (pts ! k)) (g (pts ! argmax (map g pts)))"
      by simp
  qed
  show "\<forall>k<argmax (map g pts). \<not> fl_le (g (pts ! argmax (map g pts))) (g (pts ! k))"
  proof (intro allI impI)
    fix k assume k: "k < argmax (map g pts)"
    from argmax_first[OF nn this] lt k
    show "\<not> fl_le (g (pts ! argmax (map g pts))) (g (pts ! k))" by simp
  qed
qed

text \<open>
  C6, amended. For four input points with finite coordinates, index 0 of the result of
  \<open>order_points\<close> is the \<^verbatim>\<open>float32\<close> narrowing of the first input point whose row
  sum, the \<^verbatim>\<open>float64\<close> sum of \<open>x\<close> and \<open>y\<close>, is least among the four row sums, and
  index 2 the narrowing of the first one whose row sum is greatest. When all
  coordinates are integers of magnitude below \<open>2^24\<close> (pixel positions), index 0 and
  index 2 are input points with the least and the greatest \<open>x + y\<close>.
\<close>

theorem order_points_sum_extremes:
  assumes "length pts = 4" and "\<forall>p \<in> set pts. finite_point p"
  shows "\<exists>rect i j. order_points pts = Inr rect \<and> length rect = 4 \<and>
           i < length pts \<and> j < length pts \<and>
           rect ! 0 = astype32 (pts ! i) \<and> rect ! 2 = astype32 (pts ! j) \<and>
           (\<forall>k<length pts. fl_le (row_sum (pts ! i)) (row_sum (pts ! k))) \<and>
           (\<forall>k<i. \<not> fl_le (row_sum (pts ! k)) (row_sum (pts ! i))) \<and>
           (\<forall>k<length pts. fl_le (row_sum (pts ! k)) (row_sum (pts ! j))) \<and>
           (\<forall>k<j. \<not> fl_le (row_sum (pts ! j)) (row_sum (pts ! k))) \<and>
           ((\<forall>p \<in> set pts. pixel_point p) \<longrightarrow>
              rect ! 0 \<in> set pts \<and> rect ! 2 \<in> set pts \<and>
              (\<forall>p \<in> set pts. exact_sum (rect ! 0) \<le> exact_sum p) \<and>
              (\<forall>p \<in> set pts. exact_sum p \<le> exact_sum (rect ! 2)))"
proof -
  from assms(1) have ne: "pts \<noteq> []" by auto
  from assms(2) have nn: "\<forall>p \<in> set pts. row_sum p \<noteq> NaN" by (simp add: row_sum_not_NaN)
  let ?i = "argmin (map row_sum pts)" and ?j = "argmax (map row_sum pts)"
  note mi = argmin_map_props[OF ne nn] and ma = argmax_map_props[OF ne nn]
  have r: "order_points pts =
     Inr [astype32 (pts ! ?i), astype32 (pts ! argmin (diff_axis1 pts)),
          astype32 (pts ! ?j), astype32 (pts ! argmax (diff_axis1 pts))]"
    using order_points_eq[OF ne] by (simp add: sum_axis1_def)
  have pix: "astype32 (pts ! ?i) \<in> set pts \<and> astype32 (pts ! ?j) \<in> set pts \<and>
      (\<forall>p \<in> set pts. exact_sum (astype32 (pts ! ?i)) \<le> exact_sum p) \<and>
      (\<forall>p \<in> set pts. exact_sum p \<le> exact_sum (astype32 (pts ! ?j)))"
    if px: "\<forall>p \<in> set pts. pixel_point p"
  proof -
    have pi: "pixel_point (pts ! ?i)" and pj: "pixel_point (pts ! ?j)"
      using px mi(1) ma(1) by simp_all
    have ei: "astype32 (pts ! ?i) = pts ! ?i" and ej: "astype32 (pts ! ?j) = pts ! ?j"
      using pixel_point_facts(4) pi pj by simp_all
    have lo: "exact_sum (pts ! ?i) \<le> exact_sum p" if "p \<in> set pts" for p
    proof -
      from that obtain k where k: "k < length pts" "p = pts ! k" by (auto simp: in_set_conv_nth)
      with mi(2) have "fl_le (row_sum (pts ! ?i)) (row_sum p)" by simp
      then show ?thesis
        using pixel_point_facts(2)[OF pi] pixel_point_facts(2)[of p] px that by simp
    qed
    have hi: "exact_sum p \<le> exact_sum (pts ! ?j)" if "p \<in> set pts" for p
    proof -
      from that obtain k where k: "k < length pts" "p = pts ! k" by (auto simp: in_set_conv_nth)
      with ma(2) have "fl_le (row_sum p) (row_sum (pts ! ?j))" by simp
      then show ?thesis
        using pixel_point_facts(2)[OF pj] pixel_point_facts(2)[of p] px that by simp
    qed
    show ?thesis unfolding ei ej using lo hi mi(1) ma(1) by simp
  qed
  show ?thesis
    apply (rule exI[of _ "[astype32 (pts ! ?i), astype32 (pts ! argmin (diff_axis1 pts)),
          astype32 (pts ! ?j), astype32 (pts ! argmax (diff_axis1 pts))]"])
    apply (rule exI[of _ ?i])
    apply (rule exI[of _ ?j])
    using r mi ma pix by simp
qed

lemma round_fl_pow53:
  "round_fl Binary64 9007199254740992 = Fin 9007199254740992"
  "round_fl Binary64 (- 9007199254740992) = Fin (- 9007199254740992)"
  "round_fl Binary32 9007199254740992 = Fin 9007199254740992"
proof -
  have e: "(9007199254740992 :: real) = real_of_int 1 * pow2 53"
    "(- 9007199254740992 :: real) = real_of_int (- 1) * pow2 53"
    by (simp_all add: pow2_def)
  show "round_fl Binary64 9007199254740992 = Fin 9007199254740992"
    by (rule round_fl_exact[OF e(1)]) (simp_all add: emin_def pow2_def)
  show "round_fl Binary64 (- 9007199254740992) = Fin (- 9007199254740992)"
    by (rule round_fl_exact[OF e(2)]) (simp_all add: emin_def pow2_def)
  show "round_fl Binary32 9007199254740992 = Fin 9007199254740992"
    by (rule round_fl_exact[OF e(1)]) (simp_all add: emin_def pow2_def)
qed

lemma round_fl_pow53_plus_1: "round_fl Binary64 9007199254740993 = Fin 9007199254740992"
proof -
  have "round_fl Binary64 9007199254740993 =
      Fin (real_of_int 4503599627370496 * pow2 (53 - prec Binary64 + 1))"
    by (rule round_fl_eval) (simp_all add: pow2_def emin_def rne_def)
  then show ?thesis by (simp add: pow2_def)
qed

lemma round_fl_pow53_minus_1:
  "round_fl Binary64 (- 9007199254740991) = Fin (- 9007199254740991)"
proof -
  have "\<bar>- 9007199254740991 :: int\<bar> < 2 ^ nat (prec Binary64)" by simp
  from round_fl_int[OF this] show ?thesis by simp
qed

text \<open>
  C6, as the spec states it: index 2 of the result has the greatest \<open>x + y\<close> of the
  four points. The row sums are \<^verbatim>\<open>float64\<close> sums: for the input
  \<open>(0,0), (2^53,0), (2^53,1), (1,0)\<close> the sum of the third point rounds to \<open>2^53\<close>, which
  is the sum of the second; \<^verbatim>\<open>argmax\<close> returns the first of the two, and index 2 is
  \<open>(2^53, 0)\<close>, whose \<open>x + y\<close> is less than that of \<open>(2^53, 1)\<close>.
\<close>

theorem order_points_sum_counterexample:
  "order_points
     [(Fin 0, Fin 0), (Fin 9007199254740992, Fin 0), (Fin 9007199254740992, Fin 1), (Fin 1, Fin 0)] =
   Inr [(Fin 0, Fin 0), (Fin 9007199254740992, Fin 0), (Fin 9007199254740992, Fin 0), (Fin 0, Fin 0)] \<and>
   \<not> spec_sum_rule
     [(Fin 0, Fin 0), (Fin 9007199254740992, Fin 0), (Fin 9007199254740992, Fin 1), (Fin 1, Fin 0)]
     [(Fin 0, Fin 0), (Fin 9007199254740992, Fin 0), (Fin 9007199254740992, Fin 0), (Fin 0, Fin 0)]"
proof -
  have "order_points
     [(Fin 0, Fin 0), (Fin 9007199254740992, Fin 0), (Fin 9007199254740992, Fin 1), (Fin 1, Fin 0)] =
   Inr [(Fin 0, Fin 0), (Fin 9007199254740992, Fin 0), (Fin 9007199254740992, Fin 0), (Fin 0, Fin 0)]"
    by (simp add: order_points_def sum_axis1_def diff_axis1_def row_sum_def row_diff_def
        astype32_def Let_def round_fl_pow53 round_fl_pow53_plus_1 round_fl_pow53_minus_1)
  then show ?thesis by (simp add: spec_sum_rule_def exact_sum_def)
qed

theorem order_points_sum_extremes_witness:
  "length [(Fin 10, Fin 11), (Fin 0, Fin 12), (Fin 1, Fin 0), (Fin 9, Fin 1)] = 4 \<and>
   list_all pixel_point [(Fin 10, Fin 11), (Fin 0, Fin 12), (Fin 1, Fin 0), (Fin 9, Fin 1)] \<and>
   (\<exists>rect. order_points [(Fin 10, Fin 11), (Fin 0, Fin 12), (Fin 1, Fin 0), (Fin 9, Fin 1)] = Inr rect \<and>
      rect ! 0 = (Fin 1, Fin 0) \<and> rect ! 2 = (Fin 10, Fin 11))"
proof -
  let ?pts = "[(Fin 10, Fin 11), (Fin 0, Fin 12), (Fin 1, Fin 0), (Fin 9, Fin 1)]"
  have len: "length ?pts = 4" by simp
  have px: "pixel_point (Fin (real_of_int m), Fin (real_of_int n))"
    if "\<bar>m\<bar> < 2 ^ 24" "\<bar>n\<bar> < 2 ^ 24" for m n
    using that unfolding pixel_point_def by blast
  have pixel: "\<forall>p \<in> set ?pts. pixel_point p"
    using px[of 10 11] px[of 0 12] px[of 1 0] px[of 9 1] by simp
  then have fin: "\<forall>p \<in> set ?pts. finite_point p"
    using pixel_point_facts(1) by blast
  from order_points_sum_extremes[OF len fin] pixel obtain rect where
    r: "order_points ?pts = Inr rect" and
    m0: "rect ! 0 \<in> set ?pts" and m2: "rect ! 2 \<in> set ?pts" and
    lo: "\<forall>p \<in> set ?pts. exact_sum (rect ! 0) \<le> exact_sum p" and
    hi: "\<forall>p \<in> set ?pts. exact_sum p \<le> exact_sum (rect ! 2)"
    by blast
  from m0 lo have "rect ! 0 = (Fin 1, Fin 0)" by (auto simp: exact_sum_def)
  moreover from m2 hi have "rect ! 2 = (Fin 10, Fin 11)" by (auto simp: exact_sum_def)
  ultimately show ?thesis using r len pixel by (simp add: list_all_iff)
qed

text \<open>
  C1, as the spec states it: the point at index 1 (top-right) has the least \<open>x - y\<close>
  and the point at index 3 (bottom-left) the greatest. On the corners of a square the
  code returns the corner \<open>(10, 0)\<close>, whose \<open>x - y\<close> is the greatest, at index 1.
\<close>

theorem order_points_diff_counterexample:
  "order_points [(Fin 0, Fin 0), (Fin 10, Fin 0), (Fin 10, Fin 10), (Fin 0, Fin 10)] =
     Inr [(Fin 0, Fin 0), (Fin 10, Fin 0), (Fin 10, Fin 10), (Fin 0, Fin 10)] \<and>
   \<not> spec_diff_rule [(Fin 0, Fin 0), (Fin 10, Fin 0), (Fin 10, Fin 10), (Fin 0, Fin 10)]
        [(Fin 0, Fin 0), (Fin 10, Fin 0), (Fin 10, Fin 10), (Fin 0, Fin 10)]"
  by (simp add: order_points_def sum_axis1_def diff_axis1_def row_sum_def row_diff_def
      astype32_def Let_def round_small spec_diff_rule_def exact_diff_def)

text \<open>
  C1, amended. \<^verbatim>\<open>np.diff\<close> computes \<open>y - x\<close>. For four input points with finite
  coordinates, index 1 (top-right) of the result is the \<^verbatim>\<open>float32\<close> narrowing of the
  first input point whose row difference, the \<^verbatim>\<open>float64\<close> difference \<open>y - x\<close>, is
  least, and index 3 (bottom-left) the narrowing of the first one whose row difference is
  greatest; the former difference is at most the latter. When all coordinates are
  integers of magnitude below \<open>2^24\<close>, index 1 is an input point with the greatest
  \<open>x - y\<close> and index 3 one with the least, so the bottom-left point's \<open>x - y\<close> is at
  most the top-right point's.
\<close>

theorem order_points_diff_extremes:
  assumes "length pts = 4" and "\<forall>p \<in> set pts. finite_point p"
  shows "\<exists>rect i j. order_points pts = Inr rect \<and> length rect = 4 \<and>
           i < length pts \<and> j < length pts \<and>
           rect ! 1 = astype32 (pts ! i) \<and> rect ! 3 = astype32 (pts ! j) \<and>
           (\<forall>k<length pts. fl_le (row_diff (pts ! i)) (row_diff (pts ! k))) \<and>
           (\<forall>k<i. \<not> fl_le (row_diff (pts ! k)) (row_diff (pts ! i))) \<and>
           (\<forall>k<length pts. fl_le (row_diff (pts ! k)) (row_diff (pts ! j))) \<and>
           (\<forall>k<j. \<not> fl_le (row_diff (pts ! j)) (row_diff (pts ! k))) \<and>
           fl_le (row_diff (pts ! i)) (row_diff (pts ! j)) \<and>
           ((\<forall>p \<in> set pts. pixel_point p) \<longrightarrow>
              rect ! 1 \<in> set pts \<and> rect ! 3 \<in> set pts \<and>
              (\<forall>p \<in> set pts. exact_diff p \<le> exact_diff (rect ! 1)) \<and>
              (\<forall>p \<in> set pts. exact_diff (rect ! 3) \<le> exact_diff p) \<and>
              exact_diff (rect ! 3) \<le> exact_diff (rect ! 1))"
proof -
  from assms(1) have ne: "pts \<noteq> []" by auto
  from assms(2) have nn: "\<forall>p \<in> set pts. row_diff p \<noteq> NaN" by (simp add: row_diff_not_NaN)
  let ?i = "argmin (map row_diff pts)" and ?j = "argmax (map row_diff pts)"
  note mi = argmin_map_props[OF ne nn] and ma = argmax_map_props[OF ne nn]
  have r: "order_points pts =
     Inr [astype32 (pts ! argmin (sum_axis1 pts)), astype32 (pts ! ?i),
          astype32 (pts ! argmax (sum_axis1 pts)), astype32 (pts ! ?j)]"
    using order_points_eq[OF ne] by (simp add: diff_axis1_def)
  have ij: "fl_le (row_diff (pts ! ?i)) (row_diff (pts ! ?j))"
    using mi(2) ma(1) by simp
  have pix: "astype32 (pts ! ?i) \<in> set pts \<and> astype32 (pts ! ?j) \<in> set pts \<and>
      (\<forall>p \<in> set pts. exact_diff p \<le> exact_diff (astype32 (pts ! ?i))) \<and>
      (\<forall>p \<in> set pts. exact_diff (astype32 (pts ! ?j)) \<le> exact_diff p) \<and>
      exact_diff (astype32 (pts ! ?j)) \<le> exact_diff (astype32 (pts ! ?i))"
    if px: "\<forall>p \<in> set pts. pixel_point p"
  proof -
    have pi: "pixel_point (pts ! ?i)" and pj: "pixel_point (pts ! ?j)"
      using px mi(1) ma(1) by simp_all
    have ei: "astype32 (pts ! ?i) = pts ! ?i" and ej: "astype32 (pts ! ?j) = pts ! ?j"
      using pixel_point_facts(4) pi pj by simp_all
    have lo: "exact_diff p \<le> exact_diff (pts ! ?i)" if "p \<in> set pts" for p
    proof -
      from that obtain k where k: "k < length pts" "p = pts ! k" by (auto simp: in_set_conv_nth)
      with mi(2) have "fl_le (row_diff (pts ! ?i)) (row_diff p)" by simp
      then show ?thesis
        using pixel_point_facts(3)[OF pi] pixel_point_facts(3)[of p] px that by simp
    qed
    have hi: "exact_diff (pts ! ?j) \<le> exact_diff p" if "p \<in> set pts" for p
    proof -
      from that obtain k where k: "k < length pts" "p = pts ! k" by (auto simp: in_set_conv_nth)
      with ma(2) have "fl_le (row_diff p) (row_diff (pts ! ?j))" by simp
      then show ?thesis
        using pixel_point_facts(3)[OF pj] pixel_point_facts(3)[of p] px that by simp
    qed
    have "pts ! ?i \<in> set pts" using mi(1) by simp
    from hi[OF this] show ?thesis unfolding ei ej using lo hi mi(1) ma(1) by simp
  qed
  show ?thesis
    apply (rule exI[of _ "[astype32 (pts ! argmin (sum_axis1 pts)), astype32 (pts ! ?i),
          astype32 (pts ! argmax (sum_axis1 pts)), astype32 (pts ! ?j)]"])
    apply (rule exI[of _ ?i])
    apply (rule exI[of _ ?j])
    using r mi ma ij pix by simp
qed

theorem order_points_diff_extremes_witness:
  "length [(Fin 10, Fin 11), (Fin 0, Fin 12), (Fin 1, Fin 0), (Fin 9, Fin 1)] = 4 \<and>
   list_all pixel_point [(Fin 10, Fin 11), (Fin 0, Fin 12), (Fin 1, Fin 0), (Fin 9, Fin 1)] \<and>
   (\<exists>rect. order_points [(Fin 10, Fin 11), (Fin 0, Fin 12), (Fin 1, Fin 0), (Fin 9, Fin 1)] = Inr rect \<and>
      rect ! 1 = (Fin 9, Fin 1) \<and> rect ! 3 = (Fin 0, Fin 12))"
proof -
  let ?pts = "[(Fin 10, Fin 11), (Fin 0, Fin 12), (Fin 1, Fin 0), (Fin 9, Fin 1)]"
  have len: "length ?pts = 4" by simp
  have px: "pixel_point (Fin (real_of_int m), Fin (real_of_int n))"
    if "\<bar>m\<bar> < 2 ^ 24" "\<bar>n\<bar> < 2 ^ 24" for m n
    using that unfolding pixel_point_def by blast
  have pixel: "\<forall>p \<in> set ?pts. pixel_point p"
    using px[of 10 11] px[of 0 12] px[of 1 0] px[of 9 1] by simp
  then have fin: "\<forall>p \<in> set ?pts. finite_point p"
    using pixel_point_facts(1) by blast
  from order_points_diff_extremes[OF len fin] pixel obtain rect where
    r: "order_points ?pts = Inr rect" and
    m1: "rect ! 1 \<in> set ?pts" and m3: "rect ! 3 \<in> set ?pts" and
    lo: "\<forall>p \<in> set ?pts. exact_diff p \<le> exact_diff (rect ! 1)" and
    hi: "\<forall>p \<in> set ?pts. exact_diff (rect ! 3) \<le> exact_diff p"
    by blast
  from m1 lo have "rect ! 1 = (Fin 9, Fin 1)" by (auto simp: exact_diff_def)
  moreover from m3 hi have "rect ! 3 = (Fin 0, Fin 12)" by (auto simp: exact_diff_def)
  ultimately show ?thesis using r len pixel by (simp add: list_all_iff)
qed

lemma roughly_axis_aligned_convex:
  assumes "roughly_axis_aligned a b c d"
  shows "strictly_convex a b c d"
proof -
  have key: "0 < u * v - w * z" if "\<bar>w\<bar> < u" and "\<bar>z\<bar> < v" for u v w z :: real
  proof -
    have "w * z \<le> \<bar>w\<bar> * \<bar>z\<bar>" by (metis abs_ge_self abs_mult)
    also have "\<bar>w\<bar> * \<bar>z\<bar> < u * v"
      using that by (intro mult_strict_mono') auto
    finally show ?thesis by simp
  qed
  have t1: "0 < turn a b c"
    using key[of "snd b - snd a" "fst b - fst a" "fst c - fst b" "snd c - snd b"] assms
    by (simp add: turn_def roughly_axis_aligned_def aligned_by_def)
  have t2: "0 < turn b c d"
    using key[of "snd c - snd d" "fst c - fst d" "fst c - fst b" "snd c - snd b"] assms
    by (simp add: turn_def roughly_axis_aligned_def aligned_by_def algebra_simps)
  have t3: "0 < turn c d a"
    using key[of "snd c - snd d" "fst c - fst d" "fst d - fst a" "snd d - snd a"] assms
    by (simp add: turn_def roughly_axis_aligned_def aligned_by_def algebra_simps)
  have t4: "0 < turn d a b"
    using key[of "snd b - snd a" "fst b - fst a" "fst d - fst a" "snd d - snd a"] assms
    by (simp add: turn_def roughly_axis_aligned_def aligned_by_def algebra_simps)
  from t1 t2 t3 t4 show ?thesis by (simp add: strictly_convex_def)
qed

lemma aligned_by_mono: "0 \<le> m \<Longrightarrow> aligned_by m a b c d \<Longrightarrow> roughly_axis_aligned a b c d"
  by (auto simp: aligned_by_def roughly_axis_aligned_def)

text \<open>A float64 sum or difference of two values bounded by \<open>B\<close> is finite and close.\<close>

lemma round64_close:
  assumes B: "1 \<le> B" "B \<le> 2 ^ 1000" and s: "\<bar>s\<bar> \<le> 2 * B"
  shows "\<exists>r. round_fl Binary64 s = Fin r \<and> \<bar>r - s\<bar> \<le> B / 2 ^ 51"
proof -
  have "\<bar>s\<bar> \<le> 2 * 2 ^ 1000" using s B by linarith
  also have "\<dots> = pow2 1001" by (simp add: pow2_def)
  finally have "\<bar>s\<bar> \<le> pow2 1001" .
  from round_fl_bounded[where f = Binary64, OF this] obtain r where r: "round_fl Binary64 s = Fin r"
    by (auto simp: emin_def)
  have "\<bar>r - s\<bar> \<le> pow2 (- prec Binary64) * \<bar>s\<bar> + pow2 (emin Binary64 - prec Binary64)"
    using r by (rule round_fl_error)
  also have "\<dots> \<le> pow2 (- 53) * (2 * B) + pow2 (- 1075)"
    using s by (simp add: emin_def mult_left_mono)
  also have "pow2 (- 53) * (2 * B) = B / 2 ^ 52" by (simp add: pow2_def)
  also have "pow2 (- 1075) \<le> B / 2 ^ 52"
  proof -
    have "pow2 (- 1075) \<le> pow2 (- 52)" by simp
    also have "\<dots> = 1 / 2 ^ 52" by (simp add: pow2_def)
    also have "\<dots> \<le> B / 2 ^ 52" using B(1) by (simp add: divide_right_mono)
    finally show ?thesis .
  qed
  finally have "\<bar>r - s\<bar> \<le> B / 2 ^ 52 + B / 2 ^ 52" by simp
  also have "\<dots> = B / 2 ^ 51" by simp
  finally show ?thesis using r by blast
qed

lemma round64_strict:
  assumes B: "1 \<le> B" "B \<le> 2 ^ 1000" and s: "\<bar>s\<bar> \<le> 2 * B" and t: "\<bar>t\<bar> \<le> 2 * B"
    and gap: "s + B / 2 ^ 50 < t"
  shows "\<exists>r q. round_fl Binary64 s = Fin r \<and> round_fl Binary64 t = Fin q \<and> r < q"
proof -
  from round64_close[OF B s] obtain r where r: "round_fl Binary64 s = Fin r" "\<bar>r - s\<bar> \<le> B / 2 ^ 51"
    by blast
  from round64_close[OF B t] obtain q where q: "round_fl Binary64 t = Fin q" "\<bar>q - t\<bar> \<le> B / 2 ^ 51"
    by blast
  define e where "e = B / 2 ^ 51"
  have e2: "B / 2 ^ 50 = e + e" by (simp add: e_def)
  have "r \<le> s + e" "t - e \<le> q"
    using r(2) q(2) unfolding e_def[symmetric] by linarith+
  with gap have "r < q" unfolding e2 by linarith
  with r(1) q(1) show ?thesis by blast
qed

lemma argmin_map_unique:
  assumes "p \<in> set pts" and "\<forall>q \<in> set pts. g q \<noteq> NaN"
    and "\<And>q. q \<in> set pts \<Longrightarrow> q \<noteq> p \<Longrightarrow> \<not> fl_le (g q) (g p)"
  shows "pts ! argmin (map g pts) = p"
proof (rule ccontr)
  assume neq: "pts ! argmin (map g pts) \<noteq> p"
  from assms(1) have ne: "pts \<noteq> []" by auto
  note pr = argmin_map_props[OF ne assms(2)]
  from assms(1) obtain k where k: "k < length pts" "p = pts ! k" by (auto simp: in_set_conv_nth)
  with pr(2) have "fl_le (g (pts ! argmin (map g pts))) (g p)" by simp
  moreover have "pts ! argmin (map g pts) \<in> set pts" using pr(1) by simp
  ultimately show False using assms(3) neq by blast
qed

lemma argmax_map_unique:
  assumes "p \<in> set pts" and "\<forall>q \<in> set pts. g q \<noteq> NaN"
    and "\<And>q. q \<in> set pts \<Longrightarrow> q \<noteq> p \<Longrightarrow> \<not> fl_le (g p) (g q)"
  shows "pts ! argmax (map g pts) = p"
proof (rule ccontr)
  assume neq: "pts ! argmax (map g pts) \<noteq> p"
  from assms(1) have ne: "pts \<noteq> []" by auto
  note pr = argmax_map_props[OF ne assms(2)]
  from assms(1) obtain k where k: "k < length pts" "p = pts ! k" by (auto simp: in_set_conv_nth)
  with pr(2) have "fl_le (g p) (g (pts ! argmax (map g pts)))" by simp
  moreover have "pts ! argmax (map g pts) \<in> set pts" using pr(1) by simp
  ultimately show False using assms(3) neq by blast
qed

lemma row_sum_strict:
  assumes B: "1 \<le> B" "B \<le> 2 ^ 1000"
    and p: "\<bar>fst p\<bar> \<le> B" "\<bar>snd p\<bar> \<le> B" and q: "\<bar>fst q\<bar> \<le> B" "\<bar>snd q\<bar> \<le> B"
    and gap: "fst p + snd p + B / 2 ^ 50 < fst q + snd q"
  shows "fl_le (row_sum (fpoint p)) (row_sum (fpoint q))"
    and "\<not> fl_le (row_sum (fpoint q)) (row_sum (fpoint p))"
proof -
  have "\<bar>fst p + snd p\<bar> \<le> 2 * B" "\<bar>fst q + snd q\<bar> \<le> 2 * B" using p q by linarith+
  from round64_strict[OF B this gap] obtain r s where
    "round_fl Binary64 (fst p + snd p) = Fin r" "round_fl Binary64 (fst q + snd q) = Fin s" "r < s"
    by blast
  then show "fl_le (row_sum (fpoint p)) (row_sum (fpoint q))"
    and "\<not> fl_le (row_sum (fpoint q)) (row_sum (fpoint p))"
    by (simp_all add: row_sum_def fpoint_def)
qed

lemma row_diff_strict:
  assumes B: "1 \<le> B" "B \<le> 2 ^ 1000"
    and p: "\<bar>fst p\<bar> \<le> B" "\<bar>snd p\<bar> \<le> B" and q: "\<bar>fst q\<bar> \<le> B" "\<bar>snd q\<bar> \<le> B"
    and gap: "snd p - fst p + B / 2 ^ 50 < snd q - fst q"
  shows "fl_le (row_diff (fpoint p)) (row_diff (fpoint q))"
    and "\<not> fl_le (row_diff (fpoint q)) (row_diff (fpoint p))"
proof -
  have "\<bar>snd p - fst p\<bar> \<le> 2 * B" "\<bar>snd q - fst q\<bar> \<le> 2 * B" using p q by linarith+
  from round64_strict[OF B this gap] obtain r s where
    "round_fl Binary64 (snd p - fst p) = Fin r" "round_fl Binary64 (snd q - fst q) = Fin s" "r < s"
    by blast
  then show "fl_le (row_diff (fpoint p)) (row_diff (fpoint q))"
    and "\<not> fl_le (row_diff (fpoint q)) (row_diff (fpoint p))"
    by (simp_all add: row_diff_def fpoint_def)
qed

lemma finite_fpoint [simp]: "finite_point (fpoint p)"
  by (simp add: finite_point_def fpoint_def)

text \<open>
  C5, amended. Let \<open>a\<close>, \<open>b\<close>, \<open>c\<close>, \<open>d\<close> be the corners of a quadrilateral, with
  coordinates of magnitude at most \<open>B\<close>, that is roughly axis-aligned with the margin
  \<open>B / 2^50\<close> (the margin covers the rounding of the \<^verbatim>\<open>float64\<close> sums and
  differences). Then the quadrilateral is strictly convex and, in whatever order the
  input lists the four corners, \<open>order_points\<close> returns the \<^verbatim>\<open>float32\<close> narrowings
  of \<open>a\<close>, \<open>b\<close>, \<open>c\<close>, \<open>d\<close> in this order. If moreover the input coordinates are
  \<^verbatim>\<open>float32\<close> numbers already, the result is a permutation of the input: no point
  invented, duplicated or dropped.
\<close>

theorem order_points_permutation:
  assumes B: "1 \<le> B" "B \<le> 2 ^ 1000"
    and bound: "\<forall>p \<in> {a, b, c, d}. \<bar>fst p\<bar> \<le> B \<and> \<bar>snd p\<bar> \<le> B"
    and al: "aligned_by (B / 2 ^ 50) a b c d"
    and pts: "mset pts = {#fpoint a, fpoint b, fpoint c, fpoint d#}"
  shows "strictly_convex a b c d \<and>
         order_points pts =
           Inr [astype32 (fpoint a), astype32 (fpoint b), astype32 (fpoint c), astype32 (fpoint d)] \<and>
         ((\<forall>p \<in> set pts. astype32 p = p) \<longrightarrow>
            (\<exists>rect. order_points pts = Inr rect \<and> mset rect = mset pts))"
proof -
  have m0: "0 \<le> B / 2 ^ 50" using B(1) by simp
  have convex: "strictly_convex a b c d"
    using aligned_by_mono[OF m0 al] by (rule roughly_axis_aligned_convex)
  from pts have "set_mset (mset pts) = {fpoint a, fpoint b, fpoint c, fpoint d}" by simp
  then have set: "set pts = {fpoint a, fpoint b, fpoint c, fpoint d}" by simp
  then have ne: "pts \<noteq> []" by auto
  have nns: "\<forall>q \<in> set pts. row_sum q \<noteq> NaN" and nnd: "\<forall>q \<in> set pts. row_diff q \<noteq> NaN"
    using set by (auto simp: row_sum_not_NaN row_diff_not_NaN)
  from bound have ba: "\<bar>fst a\<bar> \<le> B" "\<bar>snd a\<bar> \<le> B" and bb: "\<bar>fst b\<bar> \<le> B" "\<bar>snd b\<bar> \<le> B"
    and bc: "\<bar>fst c\<bar> \<le> B" "\<bar>snd c\<bar> \<le> B" and bd: "\<bar>fst d\<bar> \<le> B" "\<bar>snd d\<bar> \<le> B"
    by simp_all
  let ?m = "B / 2 ^ 50"
  from al have g:
    "fst a + snd a + ?m < fst b + snd b" "fst a + snd a + ?m < fst d + snd d"
    "fst b + snd b + ?m < fst c + snd c" "fst d + snd d + ?m < fst c + snd c"
    "snd b - fst b + ?m < snd a - fst a" "snd b - fst b + ?m < snd c - fst c"
    "snd a - fst a + ?m < snd d - fst d" "snd c - fst c + ?m < snd d - fst d"
    by (auto simp: aligned_by_def)
  note sab = row_sum_strict[OF B ba bb g(1)] and sad = row_sum_strict[OF B ba bd g(2)]
    and sbc = row_sum_strict[OF B bb bc g(3)] and sdc = row_sum_strict[OF B bd bc g(4)]
    and dba = row_diff_strict[OF B bb ba g(5)] and dbc = row_diff_strict[OF B bb bc g(6)]
    and dad = row_diff_strict[OF B ba bd g(7)] and dcd = row_diff_strict[OF B bc bd g(8)]
  have sac: "\<not> fl_le (row_sum (fpoint c)) (row_sum (fpoint a))"
    using sab sbc fl_le_trans by blast
  have dbd: "\<not> fl_le (row_diff (fpoint d)) (row_diff (fpoint b))"
    using dba dad fl_le_trans by blast
  have "pts ! argmin (map row_sum pts) = fpoint a"
    using set sab(2) sad(2) sac nns by (intro argmin_map_unique) auto
  moreover have "pts ! argmax (map row_sum pts) = fpoint c"
    using set sbc(2) sdc(2) sac nns by (intro argmax_map_unique) auto
  moreover have "pts ! argmin (map row_diff pts) = fpoint b"
    using set dba(2) dbc(2) dbd nnd by (intro argmin_map_unique) auto
  moreover have "pts ! argmax (map row_diff pts) = fpoint d"
    using set dad(2) dcd(2) dbd nnd by (intro argmax_map_unique) auto
  ultimately have r: "order_points pts =
      Inr [astype32 (fpoint a), astype32 (fpoint b), astype32 (fpoint c), astype32 (fpoint d)]"
    by (simp add: order_points_eq[OF ne] sum_axis1_def diff_axis1_def)
  have "mset [fpoint a, fpoint b, fpoint c, fpoint d] = mset pts"
    using pts by (simp add: ac_simps)
  then have "(\<forall>p \<in> set pts. astype32 p = p) \<longrightarrow>
            (\<exists>rect. order_points pts = Inr rect \<and> mset rect = mset pts)"
    using r set by auto
  with convex r show ?thesis by blast
qed

theorem order_points_permutation_witness:
  "aligned_by (100 / 2 ^ 50) (1, 0) (9, 1) (10, 11) (0, 12) \<and>
   mset [(Fin 10, Fin 11), (Fin 0, Fin 12), (Fin 1, Fin 0), (Fin 9, Fin 1)] =
     {#fpoint (1, 0), fpoint (9, 1), fpoint (10, 11), fpoint (0, 12)#} \<and>
   order_points [(Fin 10, Fin 11), (Fin 0, Fin 12), (Fin 1, Fin 0), (Fin 9, Fin 1)] =
     Inr [(Fin 1, Fin 0), (Fin 9, Fin 1), (Fin 10, Fin 11), (Fin 0, Fin 12)] \<and>
   mset [(Fin 1, Fin 0), (Fin 9, Fin 1), (Fin 10, Fin 11), (Fin 0, Fin 12)] =
     mset [(Fin 10, Fin 11), (Fin 0, Fin 12), (Fin 1, Fin 0), (Fin 9, Fin 1)]"
proof -
  have B: "(1::real) \<le> 100" "(100::real) \<le> 2 ^ 1000" by simp_all
  have bound: "\<forall>p \<in> {(1, 0), (9, 1), (10, 11), (0, 12 :: real)}. \<bar>fst p\<bar> \<le> (100::real) \<and> \<bar>snd p\<bar> \<le> 100"
    by simp
  have al: "aligned_by (100 / 2 ^ 50) (1, 0) (9, 1) (10, 11) (0, 12)"
    by (simp add: aligned_by_def)
  have pts: "mset [(Fin 10, Fin 11), (Fin 0, Fin 12), (Fin 1, Fin 0), (Fin 9, Fin 1)] =
     {#fpoint (1, 0), fpoint (9, 1), fpoint (10, 11), fpoint (0, 12)#}"
    by (simp add: fpoint_def ac_simps)
  have n: "astype32 (Fin (numeral m), Fin (numeral n)) = (Fin (numeral m), Fin (numeral n))"
    if "(numeral m :: int) < 2 ^ 24" "(numeral n :: int) < 2 ^ 24" for m n
    using that by (simp add: astype32_def round_fl_numeral)
  from order_points_permutation[OF B bound al pts] al pts show ?thesis
    by (simp add: fpoint_def astype32_def round_small ac_simps)
qed

section \<open>Properties of the rectifier\<close>

lemma round_fl_nonneg:
  assumes "round_fl f x = Fin r" and "0 \<le> x"
  shows "0 \<le> r"
proof (cases "x = 0")
  case True
  with assms show ?thesis by simp
next
  case False
  with assms(1) have "r = rounded f x" by (auto simp: round_fl_rounded split: if_splits)
  with assms(2) show ?thesis by (simp add: rounded_sign)
qed

lemma fl_sqrt_Fin:
  assumes "fl_sqrt f a = Fin w"
  shows "0 \<le> w"
proof (cases a)
  case (Fin x)
  with assms have "0 \<le> x" and "round_fl f (sqrt x) = Fin w" by (auto split: if_splits)
  then show ?thesis using round_fl_nonneg[of f "sqrt x" w] by simp
qed (use assms in simp_all)

lemma side32_nonneg: "side32 p q = Fin w \<Longrightarrow> 0 \<le> w"
  unfolding side32_def Let_def by (rule fl_sqrt_Fin)

lemma py_int_Fin: "0 \<le> w \<Longrightarrow> py_int (Fin w) = Inr \<lfloor>w\<rfloor>"
  by simp

lemma py_int_cases:
  "(\<exists>w. a = Fin w \<and> py_int a = Inr (fl_trunc a)) \<or> py_int a = Inl OverflowError \<or> py_int a = Inl ValueError"
  by (cases a) simp_all

lemma py_int_Inr: "py_int a = Inr n \<Longrightarrow> \<exists>w. a = Fin w \<and> n = fl_trunc (Fin w)"
  by (cases a) auto

lemma py_int_Inl: "py_int a = Inl e \<Longrightarrow> e = OverflowError \<or> e = ValueError"
  by (cases a) auto

lemma dest_size_Inr:
  assumes "dest_size rect = Inr (W, H)"
  shows "\<exists>wA wB hA hB.
      side32 (rect ! 2) (rect ! 3) = Fin wA \<and> side32 (rect ! 1) (rect ! 0) = Fin wB \<and>
      side32 (rect ! 1) (rect ! 2) = Fin hA \<and> side32 (rect ! 0) (rect ! 3) = Fin hB \<and>
      0 \<le> wA \<and> 0 \<le> wB \<and> 0 \<le> hA \<and> 0 \<le> hB \<and>
      W = max \<lfloor>wA\<rfloor> \<lfloor>wB\<rfloor> \<and> H = max \<lfloor>hA\<rfloor> \<lfloor>hB\<rfloor>"
proof -
  from assms obtain a b c d where
    a: "py_int (side32 (rect ! 2) (rect ! 3)) = Inr a" and
    b: "py_int (side32 (rect ! 1) (rect ! 0)) = Inr b" and
    c: "py_int (side32 (rect ! 1) (rect ! 2)) = Inr c" and
    d: "py_int (side32 (rect ! 0) (rect ! 3)) = Inr d" and
    W: "W = max a b" and H: "H = max c d"
    by (auto simp: dest_size_def Let_def split: sum.splits)
  from py_int_Inr[OF a] py_int_Inr[OF b] py_int_Inr[OF c] py_int_Inr[OF d]
  obtain wA wB hA hB where
    s: "side32 (rect ! 2) (rect ! 3) = Fin wA" "side32 (rect ! 1) (rect ! 0) = Fin wB"
       "side32 (rect ! 1) (rect ! 2) = Fin hA" "side32 (rect ! 0) (rect ! 3) = Fin hB" and
    v: "a = fl_trunc (Fin wA)" "b = fl_trunc (Fin wB)" "c = fl_trunc (Fin hA)" "d = fl_trunc (Fin hB)"
    by blast
  have nn: "0 \<le> wA" "0 \<le> wB" "0 \<le> hA" "0 \<le> hB"
    using s by (auto dest: side32_nonneg)
  with s v W H show ?thesis by simp
qed

lemma dest_size_Inl: "dest_size rect = Inl e \<Longrightarrow> e = OverflowError \<or> e = ValueError"
  by (auto simp: dest_size_def Let_def split: sum.splits dest: py_int_Inl)

lemma dest_size_finite:
  assumes "side32 (rect ! 2) (rect ! 3) = Fin wA" and "side32 (rect ! 1) (rect ! 0) = Fin wB"
    and "side32 (rect ! 1) (rect ! 2) = Fin hA" and "side32 (rect ! 0) (rect ! 3) = Fin hB"
  shows "dest_size rect = Inr (max \<lfloor>wA\<rfloor> \<lfloor>wB\<rfloor>, max \<lfloor>hA\<rfloor> \<lfloor>hB\<rfloor>)"
proof -
  have "0 \<le> wA" "0 \<le> wB" "0 \<le> hA" "0 \<le> hB"
    using assms by (auto dest: side32_nonneg)
  with assms show ?thesis by (simp add: dest_size_def Let_def)
qed

lemma max_floor: "max \<lfloor>x\<rfloor> \<lfloor>y\<rfloor> = \<lfloor>max x y :: real\<rfloor>"
  by (simp add: max_def floor_mono) (metis floor_mono linear order_antisym)


lemma four_point_transform_unfold:
  assumes "pts \<noteq> []"
  shows "\<exists>rect. order_points pts = Inr rect \<and> length rect = 4 \<and>
     four_point_transform cv img pts =
       (case dest_size rect of
          Inl e \<Rightarrow> Inl e
        | Inr dsize \<Rightarrow>
            Inr (warpPerspective cv img (getPerspectiveTransform cv rect (dst_corners dsize)) dsize))"
  using assms by (simp add: four_point_transform_def order_points_eq Let_def split: sum.split)

text \<open>
  C7, amended. \<^verbatim>\<open>four_point_transform\<close> tests neither the size nor the transform.
  For every non-empty input, if the computation of the size succeeds, it returns the
  value of \<^verbatim>\<open>warpPerspective\<close> for that size, also when the width is zero (both width
  estimates, computed in \<^verbatim>\<open>float32\<close>, below 1) or the height is zero (both height
  estimates below 1). The only failure is that of \<^verbatim>\<open>int\<close> on a side length that is
  not finite: \<^verbatim>\<open>OverflowError\<close> on infinity, \<^verbatim>\<open>ValueError\<close> on not-a-number.
\<close>

theorem four_point_transform_no_check:
  assumes "pts \<noteq> []"
  shows "\<exists>rect. order_points pts = Inr rect \<and>
      (case dest_size rect of
         Inr dsize \<Rightarrow>
           four_point_transform cv img pts =
             Inr (warpPerspective cv img (getPerspectiveTransform cv rect (dst_corners dsize)) dsize) \<and>
           0 \<le> fst dsize \<and> 0 \<le> snd dsize \<and>
           (fst dsize = 0 \<longleftrightarrow>
              val (side32 (rect ! 2) (rect ! 3)) < 1 \<and> val (side32 (rect ! 1) (rect ! 0)) < 1) \<and>
           (snd dsize = 0 \<longleftrightarrow>
              val (side32 (rect ! 1) (rect ! 2)) < 1 \<and> val (side32 (rect ! 0) (rect ! 3)) < 1)
       | Inl e \<Rightarrow>
           four_point_transform cv img pts = Inl e \<and> (e = OverflowError \<or> e = ValueError))"
proof -
  from four_point_transform_unfold[OF assms, of cv img] obtain rect where
    r: "order_points pts = Inr rect" and
    f: "four_point_transform cv img pts =
       (case dest_size rect of
          Inl e \<Rightarrow> Inl e
        | Inr dsize \<Rightarrow>
            Inr (warpPerspective cv img (getPerspectiveTransform cv rect (dst_corners dsize)) dsize))"
    by blast
  have z: "max \<lfloor>x\<rfloor> \<lfloor>y\<rfloor> = 0 \<longleftrightarrow> x < 1 \<and> y < 1" "0 \<le> max \<lfloor>x\<rfloor> \<lfloor>y\<rfloor>"
    if "0 \<le> x" "0 \<le> y" for x y :: real
    using that unfolding max_floor by (auto simp: floor_eq_iff)
  have "case dest_size rect of
         Inr dsize \<Rightarrow>
           four_point_transform cv img pts =
             Inr (warpPerspective cv img (getPerspectiveTransform cv rect (dst_corners dsize)) dsize) \<and>
           0 \<le> fst dsize \<and> 0 \<le> snd dsize \<and>
           (fst dsize = 0 \<longleftrightarrow>
              val (side32 (rect ! 2) (rect ! 3)) < 1 \<and> val (side32 (rect ! 1) (rect ! 0)) < 1) \<and>
           (snd dsize = 0 \<longleftrightarrow>
              val (side32 (rect ! 1) (rect ! 2)) < 1 \<and> val (side32 (rect ! 0) (rect ! 3)) < 1)
       | Inl e \<Rightarrow>
           four_point_transform cv img pts = Inl e \<and> (e = OverflowError \<or> e = ValueError)"
  proof (cases "dest_size rect")
    case (Inl e)
    with f dest_size_Inl[OF Inl] show ?thesis by simp
  next
    case (Inr dsize)
    obtain W H where wh: "dsize = (W, H)" by (cases dsize)
    from dest_size_Inr[OF Inr[unfolded wh]] obtain wA wB hA hB where
      s: "side32 (rect ! 2) (rect ! 3) = Fin wA" "side32 (rect ! 1) (rect ! 0) = Fin wB"
         "side32 (rect ! 1) (rect ! 2) = Fin hA" "side32 (rect ! 0) (rect ! 3) = Fin hB" and
      nn: "0 \<le> wA" "0 \<le> wB" "0 \<le> hA" "0 \<le> hB" and
      v: "W = max \<lfloor>wA\<rfloor> \<lfloor>wB\<rfloor>" "H = max \<lfloor>hA\<rfloor> \<lfloor>hB\<rfloor>"
      by blast
    show ?thesis
      using f Inr wh s v z[OF nn(1,2)] z[OF nn(3,4)] by simp
  qed
  with r show ?thesis by blast
qed

section \<open>Properties of the contour selection\<close>

lemma simplify_eq: "simplify cv c = approxPolyDP cv c (2 / 100 * arcLength cv c True) True"
  by (simp add: simplify_def)

lemma find_quad_None_iff:
  "find_quad cv cs = None \<longleftrightarrow> (\<forall>c \<in> set cs. length (simplify cv c) \<noteq> 4)"
  by (induction cs) (auto simp: Let_def)

lemma find_quad_first:
  assumes "\<forall>c \<in> set pre. length (simplify cv c) \<noteq> 4" and "length (simplify cv c) = 4"
  shows "find_quad cv (pre @ c # post) = Some (simplify cv c)"
  using assms by (induction pre) (auto simp: Let_def)

lemma find_quad_Some:
  assumes "find_quad cv cs = Some q"
  shows "\<exists>i<length cs. q = simplify cv (cs ! i) \<and> length q = 4 \<and>
           (\<forall>j<i. length (simplify cv (cs ! j)) \<noteq> 4)"
  using assms
proof (induction cs)
  case Nil
  then show ?case by simp
next
  case (Cons c cs)
  show ?case
  proof (cases "length (simplify cv c) = 4")
    case True
    with Cons.prems have "q = simplify cv c" by (simp add: Let_def)
    with True show ?thesis by (intro exI[of _ 0]) simp
  next
    case False
    with Cons.prems have "find_quad cv cs = Some q" by (simp add: Let_def)
    from Cons.IH[OF this] obtain i where i: "i < length cs" "q = simplify cv (cs ! i)"
      "length q = 4" "\<forall>j<i. length (simplify cv (cs ! j)) \<noteq> 4" by blast
    have "\<forall>j<Suc i. length (simplify cv ((c # cs) ! j)) \<noteq> 4"
      using False i(4) by (auto simp: less_Suc_eq_0_disj)
    with i show ?thesis by (intro exI[of _ "Suc i"]) simp
  qed
qed

lemma sorted_reverse_desc:
  "sorted_wrt (\<lambda>c d. k d \<le> k c) (sorted_reverse k xs)"
proof -
  have "sorted (map (\<lambda>x. - k x) (sorted_reverse k xs))"
    unfolding sorted_reverse_def by (rule sorted_sort_key)
  then show ?thesis by (simp add: sorted_map)
qed

lemma mset_sorted_reverse: "mset (sorted_reverse k xs) = mset xs"
  by (simp add: sorted_reverse_def)

lemma sorted_reverse_stable:
  "filter (\<lambda>y. k y = v) (sorted_reverse k xs) = filter (\<lambda>y. k y = v) xs"
  using sort_key_stable[of "\<lambda>x. - k x" "- v" xs] by (simp add: sorted_reverse_def)

lemma candidates_props:
  fixes cv :: "('img, 'mat) cv2"
  shows "length (candidates cv edged) = min 5 (length (findContours cv edged))"
    and "sorted_wrt (\<lambda>c d. contourArea cv d \<le> contourArea cv c) (candidates cv edged)"
    and "mset (candidates cv edged) \<subseteq># mset (findContours cv edged)"
    and "\<forall>d \<in># mset (findContours cv edged) - mset (candidates cv edged).
           \<forall>c \<in> set (candidates cv edged). contourArea cv d \<le> contourArea cv c"
proof -
  let ?k = "contourArea cv"
  let ?s = "sorted_reverse ?k (findContours cv edged)"
  have split: "?s = candidates cv edged @ drop 5 ?s"
    by (simp add: candidates_def)
  have desc: "sorted_wrt (\<lambda>c d. ?k d \<le> ?k c) ?s" by (rule sorted_reverse_desc)
  show "length (candidates cv edged) = min 5 (length (findContours cv edged))"
    by (simp add: candidates_def sorted_reverse_def min.commute)
  show "sorted_wrt (\<lambda>c d. ?k d \<le> ?k c) (candidates cv edged)"
    using desc by (subst (asm) split) (simp add: sorted_wrt_append)
  have m: "mset (findContours cv edged) = mset (candidates cv edged) + mset (drop 5 ?s)"
    by (subst mset_sorted_reverse[symmetric, of _ ?k], subst split) simp
  show "mset (candidates cv edged) \<subseteq># mset (findContours cv edged)"
    by (simp add: m)
  have "\<forall>d \<in> set (drop 5 ?s). \<forall>c \<in> set (candidates cv edged). ?k d \<le> ?k c"
    using desc by (subst (asm) split) (auto simp: sorted_wrt_append)
  then show "\<forall>d \<in># mset (findContours cv edged) - mset (candidates cv edged).
           \<forall>c \<in> set (candidates cv edged). ?k d \<le> ?k c"
    by (simp add: m)
qed

text \<open>
  C2. The candidates are the contours of the edge map in descending order of area, cut
  to the first five, so that no contour left out is larger than a candidate. Each
  candidate is simplified with tolerance 2 percent of its perimeter. The loop returns
  the simplification of the first candidate, in that order, that has exactly four
  vertices, and nothing when there is none; what follows the selected candidate in the
  list has no influence on the result.
\<close>

theorem quad_selection:
  "(let cnts = candidates cv edged; found = findContours cv edged; area = contourArea cv in
     length cnts = min 5 (length found) \<and>
     sorted_wrt (\<lambda>c d. area d \<le> area c) cnts \<and>
     mset cnts \<subseteq># mset found \<and>
     (\<forall>d \<in># mset found - mset cnts. \<forall>c \<in> set cnts. area d \<le> area c) \<and>
     (\<forall>c. simplify cv c = approxPolyDP cv c (2 / 100 * arcLength cv c True) True) \<and>
     (case find_quad cv cnts of
        None \<Rightarrow> \<forall>c \<in> set cnts. length (simplify cv c) \<noteq> 4
      | Some q \<Rightarrow>
          \<exists>i<length cnts. q = simplify cv (cnts ! i) \<and> length q = 4 \<and>
            (\<forall>j<i. length (simplify cv (cnts ! j)) \<noteq> 4) \<and>
            (\<forall>rest. find_quad cv (take (Suc i) cnts @ rest) = Some q)))"
proof -
  let ?cnts = "candidates cv edged"
  have sel: "case find_quad cv ?cnts of
        None \<Rightarrow> \<forall>c \<in> set ?cnts. length (simplify cv c) \<noteq> 4
      | Some q \<Rightarrow>
          \<exists>i<length ?cnts. q = simplify cv (?cnts ! i) \<and> length q = 4 \<and>
            (\<forall>j<i. length (simplify cv (?cnts ! j)) \<noteq> 4) \<and>
            (\<forall>rest. find_quad cv (take (Suc i) ?cnts @ rest) = Some q)"
  proof (cases "find_quad cv ?cnts")
    case None
    then have "\<forall>c \<in> set ?cnts. length (simplify cv c) \<noteq> 4"
      by (simp add: find_quad_None_iff)
    with None show ?thesis by simp
  next
    case (Some q)
    from find_quad_Some[OF this] obtain i where i: "i < length ?cnts"
      "q = simplify cv (?cnts ! i)" "length q = 4"
      "\<forall>j<i. length (simplify cv (?cnts ! j)) \<noteq> 4" by blast
    have later: "find_quad cv (take (Suc i) ?cnts @ rest) = Some q" for rest
    proof -
      have "\<forall>c \<in> set (take i ?cnts). length (simplify cv c) \<noteq> 4"
        using i(1,4) by (auto simp: in_set_conv_nth)
      from find_quad_first[OF this, of "?cnts ! i" rest] i(1,2,3)
      show ?thesis by (simp add: take_Suc_conv_app_nth)
    qed
    from i later have "\<exists>i<length ?cnts. q = simplify cv (?cnts ! i) \<and> length q = 4 \<and>
            (\<forall>j<i. length (simplify cv (?cnts ! j)) \<noteq> 4) \<and>
            (\<forall>rest. find_quad cv (take (Suc i) ?cnts @ rest) = Some q)"
      by blast
    with Some show ?thesis by simp
  qed
  show ?thesis
    unfolding Let_def
    using candidates_props[of cv edged] simplify_eq[of cv] sel by blast
qed

section \<open>Properties of \<^verbatim>\<open>scan_document\<close>\<close>

lemma fin_le_round:
  "\<bar>x\<bar> \<le> pow2 k \<Longrightarrow> emin f \<le> k \<Longrightarrow> k \<le> emax f \<Longrightarrow> fin_le k (round_fl f x)"
  using round_fl_bounded[of x k f] by (auto simp: fin_le_def)

lemma fin_nn_round:
  "0 \<le> x \<Longrightarrow> x \<le> pow2 k \<Longrightarrow> emin f \<le> k \<Longrightarrow> k \<le> emax f \<Longrightarrow> fin_nn k (round_fl f x)"
  using round_fl_bounded[of x k f] by (auto simp: fin_nn_def)

lemma fin_nn_mono: "fin_nn j a \<Longrightarrow> j \<le> k \<Longrightarrow> fin_nn k a"
proof -
  assume a: "fin_nn j a" and jk: "j \<le> k"
  from jk have le: "pow2 j \<le> pow2 k" by simp
  from a obtain r where r: "a = Fin r" "0 \<le> r" "r \<le> pow2 j" unfolding fin_nn_def by blast
  from r(3) le have "r \<le> pow2 k" by linarith
  with r(1,2) show ?thesis unfolding fin_nn_def by blast
qed

lemma fin_le_sub:
  assumes "fin_le k a" and "fin_le k b" and "emin f \<le> k + 1" and "k + 1 \<le> emax f"
  shows "fin_le (k + 1) (fl_sub f a b)"
proof -
  from assms(1,2) obtain x y where xy: "a = Fin x" "b = Fin y" "\<bar>x\<bar> \<le> pow2 k" "\<bar>y\<bar> \<le> pow2 k"
    by (auto simp: fin_le_def)
  then have "\<bar>x - y\<bar> \<le> pow2 k + pow2 k" by linarith
  also have "\<dots> = pow2 (k + 1)" by (simp add: pow2_add)
  finally show ?thesis using xy(1,2) assms(3,4) by (simp add: fin_le_round)
qed

lemma fin_nn_square:
  assumes "fin_le k a" and "emin f \<le> 2 * k" and "2 * k \<le> emax f"
  shows "fin_nn (2 * k) (fl_mul f a a)"
proof -
  from assms(1) obtain x where x: "a = Fin x" "\<bar>x\<bar> \<le> pow2 k" by (auto simp: fin_le_def)
  have "x * x = \<bar>x\<bar> * \<bar>x\<bar>" by simp
  also have "\<dots> \<le> pow2 k * pow2 k" using x(2) by (intro mult_mono) auto
  also have "\<dots> = pow2 (2 * k)" by (simp flip: pow2_add)
  finally have "x * x \<le> pow2 (2 * k)" .
  then show ?thesis using x(1) assms(2,3) by (simp add: fin_nn_round)
qed

lemma fin_nn_add:
  assumes "fin_nn k a" and "fin_nn k b" and "emin f \<le> k + 1" and "k + 1 \<le> emax f"
  shows "fin_nn (k + 1) (fl_add f a b)"
proof -
  from assms(1,2) obtain x y where xy: "a = Fin x" "b = Fin y" "0 \<le> x" "x \<le> pow2 k"
    "0 \<le> y" "y \<le> pow2 k"
    by (auto simp: fin_nn_def)
  then have "x + y \<le> pow2 k + pow2 k" by linarith
  also have "\<dots> = pow2 (k + 1)" by (simp add: pow2_add)
  finally show ?thesis using xy assms(3,4) by (simp add: fin_nn_round)
qed

lemma fin_nn_sqrt:
  assumes "fin_nn (2 * k) a" and "emin f \<le> k" and "k \<le> emax f"
  shows "fin_nn k (fl_sqrt f a)"
proof -
  from assms(1) obtain x where x: "a = Fin x" "0 \<le> x" "x \<le> pow2 (2 * k)"
    by (auto simp: fin_nn_def)
  have "pow2 (2 * k) = (pow2 k)\<^sup>2" by (simp add: power2_eq_square flip: pow2_add)
  with x(3) have "x \<le> (pow2 k)\<^sup>2" by simp
  then have "sqrt x \<le> pow2 k" by (intro real_le_lsqrt) simp_all
  then show ?thesis using x(1,2) assms(2,3) by (simp add: fin_nn_round)
qed

lemma fin_le_cast:
  "fin_le k a \<Longrightarrow> emin f \<le> k \<Longrightarrow> k \<le> emax f \<Longrightarrow> fin_le k (fl_cast f a)"
  by (auto simp: fin_le_def intro: fin_le_round[unfolded fin_le_def])

lemma fin_le_mul:
  assumes "fin_le j a" and "fin_le k b" and "emin f \<le> j + k" and "j + k \<le> emax f"
  shows "fin_le (j + k) (fl_mul f a b)"
proof -
  from assms(1,2) obtain x y where xy: "a = Fin x" "b = Fin y" "\<bar>x\<bar> \<le> pow2 j" "\<bar>y\<bar> \<le> pow2 k"
    by (auto simp: fin_le_def)
  have "\<bar>x * y\<bar> = \<bar>x\<bar> * \<bar>y\<bar>" by (simp add: abs_mult)
  also have "\<dots> \<le> pow2 j * pow2 k" using xy(3,4) by (intro mult_mono) auto
  also have "\<dots> = pow2 (j + k)" by (simp add: pow2_add)
  finally show ?thesis using xy(1,2) assms(3,4) by (simp add: fin_le_round)
qed

lemma side32_fin:
  assumes "fin_le 55 (fst p)" "fin_le 55 (snd p)" "fin_le 55 (fst q)" "fin_le 55 (snd q)"
  shows "fin_nn 57 (side32 p q)"
proof -
  let ?dx = "fl_sub Binary32 (fst p) (fst q)" and ?dy = "fl_sub Binary32 (snd p) (snd q)"
  have dx: "fin_le 56 ?dx"
    using fin_le_sub[where k = 55 and f = Binary32, OF assms(1,3)] by (simp add: emin_def)
  have dy: "fin_le 56 ?dy"
    using fin_le_sub[where k = 55 and f = Binary32, OF assms(2,4)] by (simp add: emin_def)
  have sx: "fin_nn 112 (fl_mul Binary32 ?dx ?dx)"
    using fin_nn_square[where k = 56 and f = Binary32, OF dx] by (simp add: emin_def)
  have sy: "fin_nn 112 (fl_mul Binary32 ?dy ?dy)"
    using fin_nn_square[where k = 56 and f = Binary32, OF dy] by (simp add: emin_def)
  have "fin_nn 113 (fl_add Binary32 (fl_mul Binary32 ?dx ?dx) (fl_mul Binary32 ?dy ?dy))"
    using fin_nn_add[where k = 112 and f = Binary32, OF sx sy] by (simp add: emin_def)
  then have "fin_nn 114 (fl_add Binary32 (fl_mul Binary32 ?dx ?dx) (fl_mul Binary32 ?dy ?dy))"
    by (rule fin_nn_mono) simp
  then have "fin_nn 57 (fl_sqrt Binary32 (fl_add Binary32 (fl_mul Binary32 ?dx ?dx) (fl_mul Binary32 ?dy ?dy)))"
    using fin_nn_sqrt[where k = 57 and f = Binary32] by (simp add: emin_def)
  then show ?thesis by (simp add: side32_def Let_def)
qed

lemma astype32_bounded: "bounded_point p \<Longrightarrow> bounded_point (astype32 p)"
  by (simp add: bounded_point_def astype32_def fin_le_cast emin_def)

lemma dest_size_bounded:
  assumes "bounded_point (rect ! 0)" "bounded_point (rect ! 1)" "bounded_point (rect ! 2)"
    "bounded_point (rect ! 3)"
  shows "\<exists>d. dest_size rect = Inr d"
proof -
  have "fin_nn 57 (side32 (rect ! 2) (rect ! 3))" "fin_nn 57 (side32 (rect ! 1) (rect ! 0))"
    "fin_nn 57 (side32 (rect ! 1) (rect ! 2))" "fin_nn 57 (side32 (rect ! 0) (rect ! 3))"
    using assms by (auto simp: bounded_point_def intro: side32_fin)
  then obtain wA wB hA hB where
    "side32 (rect ! 2) (rect ! 3) = Fin wA" "side32 (rect ! 1) (rect ! 0) = Fin wB"
    "side32 (rect ! 1) (rect ! 2) = Fin hA" "side32 (rect ! 0) (rect ! 3) = Fin hB"
    by (auto simp: fin_nn_def)
  from dest_size_finite[OF this] show ?thesis by blast
qed

lemma float_of_int32:
  assumes "- (2 ^ 31) \<le> n" and "n < (2::int) ^ 31"
  shows "fin_le 31 (float_of_int Binary64 n)"
proof -
  have "\<bar>n\<bar> \<le> 2 ^ 31" using assms by linarith
  then have "real_of_int \<bar>n\<bar> \<le> real_of_int (2 ^ 31)" by (simp only: of_int_le_iff)
  then have "\<bar>real_of_int n\<bar> \<le> pow2 31" by (simp add: pow2_def)
  then show ?thesis unfolding float_of_int_def by (rule fin_le_round) (simp_all add: emin_def)
qed

lemma scale_contour_bounded:
  assumes "fin_le 24 ratio" and "p \<in> set (scale_contour q ratio)"
  shows "bounded_point p"
proof -
  from assms(2) obtain c where c: "c \<in> set q"
    and p: "p = (fl_mul Binary64 (float_of_int Binary64 (sint (fst c))) ratio,
                 fl_mul Binary64 (float_of_int Binary64 (sint (snd c))) ratio)"
    by (auto simp: scale_contour_def)
  have b: "- (2 ^ 31) \<le> sint w" "sint w < 2 ^ 31" for w :: "32 word"
    using sint_ge[of w] sint_lt[of w] by simp_all
  have x: "fin_le 31 (float_of_int Binary64 (sint (fst c)))"
    and y: "fin_le 31 (float_of_int Binary64 (sint (snd c)))"
    by (rule float_of_int32; rule b)+
  have "fin_le 55 (fl_mul Binary64 (float_of_int Binary64 (sint (fst c))) ratio)"
    using fin_le_mul[where j = 31 and k = 24 and f = Binary64, OF x assms(1)]
    by (simp add: emin_def)
  moreover have "fin_le 55 (fl_mul Binary64 (float_of_int Binary64 (sint (snd c))) ratio)"
    using fin_le_mul[where j = 31 and k = 24 and f = Binary64, OF y assms(1)]
    by (simp add: emin_def)
  ultimately show ?thesis by (simp add: p bounded_point_def)
qed

lemma four_point_transform_bounded:
  assumes "pts \<noteq> []" and "\<forall>p \<in> set pts. bounded_point p"
  shows "\<exists>warped. four_point_transform cv img pts = Inr warped"
proof -
  from assms(1) have ne1: "sum_axis1 pts \<noteq> []" and ne2: "diff_axis1 pts \<noteq> []"
    by (simp_all add: sum_axis1_def diff_axis1_def)
  have len: "length (sum_axis1 pts) = length pts" "length (diff_axis1 pts) = length pts"
    by (simp_all add: sum_axis1_def diff_axis1_def)
  have mem: "pts ! argmin (sum_axis1 pts) \<in> set pts" "pts ! argmax (sum_axis1 pts) \<in> set pts"
    "pts ! argmin (diff_axis1 pts) \<in> set pts" "pts ! argmax (diff_axis1 pts) \<in> set pts"
    using argmin_less_length[OF ne1] argmax_less_length[OF ne1]
      argmin_less_length[OF ne2] argmax_less_length[OF ne2] len by simp_all
  let ?rect = "[astype32 (pts ! argmin (sum_axis1 pts)), astype32 (pts ! argmin (diff_axis1 pts)),
          astype32 (pts ! argmax (sum_axis1 pts)), astype32 (pts ! argmax (diff_axis1 pts))]"
  have r: "order_points pts = Inr ?rect" using assms(1) by (rule order_points_eq)
  have "bounded_point (?rect ! 0)" "bounded_point (?rect ! 1)" "bounded_point (?rect ! 2)"
    "bounded_point (?rect ! 3)"
    using mem assms(2) by (simp_all add: astype32_bounded)
  from dest_size_bounded[OF this] obtain d where "dest_size ?rect = Inr d" by blast
  with r show ?thesis by (simp add: four_point_transform_def Let_def)
qed

lemma uint32_bounds:
  fixes w :: "32 word"
  shows "0 \<le> uint w" and "uint w < 2 ^ 32"
  using uint_bounded[of w] by simp_all

lemma scale_ratio_ok:
  assumes "fst (shape cv img) \<noteq> 0"
  shows "\<exists>r. scale_ratio cv img = Fin r \<and> pow2 (- 9) \<le> r \<and> r \<le> pow2 24"
proof -
  let ?n = "uint (fst (shape cv img))"
  have n: "1 \<le> ?n" "?n < 2 ^ 32"
    using assms uint32_bounds[of "fst (shape cv img)"] by (simp_all add: word_neq_0_conv word_less_def)
  then have "\<bar>?n\<bar> < 2 ^ nat (prec Binary64)" by simp
  then have f: "float_of_int Binary64 ?n = Fin (real_of_int ?n)"
    unfolding float_of_int_def by (rule round_fl_int)
  have q: "scale_ratio cv img = round_fl Binary64 (real_of_int ?n / 500)"
    by (simp add: scale_ratio_def f)
  have "real_of_int ?n < real_of_int (2 ^ 32)" using n(2) by (simp only: of_int_less_iff)
  then have up: "real_of_int ?n / 500 \<le> pow2 24" by (simp add: pow2_def)
  have "real_of_int 1 \<le> real_of_int ?n" using n(1) by (simp only: of_int_le_iff)
  then have lo: "pow2 (- 9) \<le> real_of_int ?n / 500" by (simp add: pow2_def)
  have "\<bar>real_of_int ?n / 500\<bar> \<le> pow2 24" using up lo pow2_pos[of "- 9"] by linarith
  from round_fl_bounded[OF this, of Binary64] obtain r where
    r: "round_fl Binary64 (real_of_int ?n / 500) = Fin r" "\<bar>r\<bar> \<le> pow2 24"
    by (auto simp: emin_def)
  have "pow2 (- 9) \<le> r"
    using lo _ r(1) by (rule round_fl_positive) (simp add: emin_def)
  with r q show ?thesis by (auto simp: abs_le_iff)
qed

lemma scaled_width_ok:
  assumes "fst (shape cv img) \<noteq> 0"
  shows "\<exists>w. scaled_width cv img = Fin w \<and> 0 \<le> w"
proof -
  from scale_ratio_ok[OF assms] obtain r where
    r: "scale_ratio cv img = Fin r" "pow2 (- 9) \<le> r" by blast
  then have rpos: "0 < r" using pow2_pos[of "- 9"] by linarith
  let ?n = "uint (snd (shape cv img))"
  have n: "0 \<le> ?n" "?n < 2 ^ 32" using uint32_bounds[of "snd (shape cv img)"] by simp_all
  then have "\<bar>?n\<bar> < 2 ^ nat (prec Binary64)" by simp
  then have f: "float_of_int Binary64 ?n = Fin (real_of_int ?n)"
    unfolding float_of_int_def by (rule round_fl_int)
  have q: "scaled_width cv img = round_fl Binary64 (real_of_int ?n / r)"
    using rpos by (simp add: scaled_width_def f r(1))
  have "real_of_int ?n \<le> real_of_int (2 ^ 32)" using n(2) by (simp only: of_int_le_iff)
  then have "real_of_int ?n \<le> pow2 32" by (simp add: pow2_def)
  have "0 \<le> real_of_int ?n" using n(1) by (simp only: of_int_0_le_iff)
  then have nn: "0 \<le> real_of_int ?n / r" using rpos by (intro divide_nonneg_pos)
  have "real_of_int ?n / r \<le> pow2 32 / pow2 (- 9)"
    using \<open>real_of_int ?n \<le> pow2 32\<close> r(2) n(1) by (intro frac_le) auto
  also have "\<dots> = pow2 41" by (simp flip: pow2_diff)
  finally have "\<bar>real_of_int ?n / r\<bar> \<le> pow2 41" using nn by simp
  from round_fl_bounded[OF this, of Binary64] nn q show ?thesis
    by (auto simp: emin_def)
qed

lemma scan_document_unfold:
  assumes "files image_path = Some img" and "fst (shape cv img) \<noteq> 0"
  shows "scan_document cv files image_path =
     (case find_quad cv (candidates cv (edge_map cv (working_copy cv img))) of
        None \<Rightarrow> ([no_document_message], Inr ReturnNone)
      | Some q \<Rightarrow>
         (case four_point_transform cv img (scale_contour q (scale_ratio cv img)) of
            Inl e \<Rightarrow> ([], Inl e)
          | Inr warped \<Rightarrow>
              ([], Inr (ReturnPair (working_copy cv img)
                 (adaptiveThreshold cv (cvtColor cv warped COLOR_BGR2GRAY) 255
                    ADAPTIVE_THRESH_GAUSSIAN_C THRESH_BINARY 11 2)))))"
proof -
  from scale_ratio_ok[OF assms(2)] obtain r where r: "scale_ratio cv img = Fin r" "pow2 (- 9) \<le> r"
    by blast
  have "0 < r" using r(2) pow2_pos[of "- 9"] by linarith
  with r(1) have nz: "scale_ratio cv img \<noteq> Fin 0" by simp
  from scaled_width_ok[OF assms(2)] obtain w where w: "scaled_width cv img = Fin w" by blast
  then have pi: "py_int (scaled_width cv img) = Inr (fl_trunc (scaled_width cv img))" by simp
  show ?thesis
    using assms(1) nz pi
    by (simp add: scan_document_def working_copy_def Let_def split: option.split sum.split)
qed

text \<open>
  C3, amended. If the file is read and no candidate among the top five contours
  simplifies to exactly four vertices, \<^verbatim>\<open>scan_document\<close> prints the line
  "No document detected. Please try another image." and returns \<^verbatim>\<open>None\<close>.
\<close>

theorem scan_document_no_document:
  assumes "files image_path = Some img" and "fst (shape cv img) \<noteq> 0"
    and "\<forall>c \<in> set (candidates cv (edge_map cv (working_copy cv img))).
           length (approxPolyDP cv c (2 / 100 * arcLength cv c True) True) \<noteq> 4"
  shows "scan_document cv files image_path =
           ([''No document detected. Please try another image.''], Inr ReturnNone)"
proof -
  from assms(3) have "find_quad cv (candidates cv (edge_map cv (working_copy cv img))) = None"
    by (simp add: find_quad_None_iff simplify_eq)
  then show ?thesis
    using scan_document_unfold[where files = files and image_path = image_path, OF assms(1,2)]
    by (simp add: no_document_message_def)
qed

text \<open>
  C10. When a four-vertex candidate is found, \<^verbatim>\<open>scan_document\<close> returns the pair of
  the working copy (the input resized to height 500 and to the width
  \<^verbatim>\<open>int(image.shape[1] / ratio)\<close>, not the original) and the thresholded, rectified
  image; when none is found it returns the bare \<^verbatim>\<open>None\<close>, on which the unpacking in
  the notebook's last cell raises \<^verbatim>\<open>TypeError\<close>. The file is readable and the image
  has at least one row.
\<close>

theorem scan_document_returns:
  assumes "files image_path = Some img" and "fst (shape cv img) \<noteq> 0"
  shows "case find_quad cv (candidates cv (edge_map cv (working_copy cv img))) of
      Some q \<Rightarrow>
        \<exists>warped T.
          four_point_transform cv img (scale_contour q (scale_ratio cv img)) = Inr warped \<and>
          T = adaptiveThreshold cv (cvtColor cv warped COLOR_BGR2GRAY) 255
                ADAPTIVE_THRESH_GAUSSIAN_C THRESH_BINARY 11 2 \<and>
          scan_document cv files image_path =
            ([], Inr (ReturnPair
                   (resize cv img
                      (fl_trunc
                         (fl_div Binary64 (float_of_int Binary64 (uint (snd (shape cv img))))
                            (fl_div Binary64 (float_of_int Binary64 (uint (fst (shape cv img))))
                               (Fin 500))),
                       500))
                   T)) \<and>
          (image_path = input_image_path \<longrightarrow>
             snd (notebook_main cv files) =
               Inr [cvtColor cv (working_copy cv img) COLOR_BGR2RGB, T])
    | None \<Rightarrow>
        scan_document cv files image_path = ([no_document_message], Inr ReturnNone) \<and>
        (image_path = input_image_path \<longrightarrow> snd (notebook_main cv files) = Inl TypeError)"
proof (cases "find_quad cv (candidates cv (edge_map cv (working_copy cv img)))")
  case None
  then have s: "scan_document cv files image_path = ([no_document_message], Inr ReturnNone)"
    using scan_document_unfold[where files = files and image_path = image_path, OF assms]
    by simp
  then have "image_path = input_image_path \<longrightarrow> snd (notebook_main cv files) = Inl TypeError"
    by (auto simp: notebook_main_def)
  with s None show ?thesis by simp
next
  case (Some q)
  from find_quad_Some[OF Some] have "length q = 4" by blast
  then have ne: "scale_contour q (scale_ratio cv img) \<noteq> []"
    by (auto simp: scale_contour_def)
  from scale_ratio_ok[OF assms(2)] obtain r where
    r: "scale_ratio cv img = Fin r" "pow2 (- 9) \<le> r" "r \<le> pow2 24" by blast
  have "\<bar>r\<bar> \<le> pow2 24" using r(2,3) pow2_pos[of "- 9"] by linarith
  with r(1) have "fin_le 24 (scale_ratio cv img)"
    by (simp add: fin_le_def)
  then have "\<forall>p \<in> set (scale_contour q (scale_ratio cv img)). bounded_point p"
    using scale_contour_bounded by blast
  from four_point_transform_bounded[OF ne this, of cv img] obtain warped where
    w: "four_point_transform cv img (scale_contour q (scale_ratio cv img)) = Inr warped" by blast
  let ?T = "adaptiveThreshold cv (cvtColor cv warped COLOR_BGR2GRAY) 255
              ADAPTIVE_THRESH_GAUSSIAN_C THRESH_BINARY 11 2"
  have s: "scan_document cv files image_path = ([], Inr (ReturnPair (working_copy cv img) ?T))"
    using scan_document_unfold[where files = files and image_path = image_path, OF assms] Some w
    by simp
  then have "image_path = input_image_path \<longrightarrow>
      snd (notebook_main cv files) = Inr [cvtColor cv (working_copy cv img) COLOR_BGR2RGB, ?T]"
    by (auto simp: notebook_main_def)
  with s w Some show ?thesis
    by (simp add: working_copy_def scaled_width_def scale_ratio_def)
qed




section \<open>Closed examples\<close>

subsection \<open>Roundings that occur in the examples\<close>

lemma fl_op_1:
  "round_fl Binary64 (3 / 5) = Fin (5404319552844595 / 9007199254740992)"
  using round_fl_eval[where f = Binary64 and x = "3 / 5" and e = "- 1" and n = "5404319552844595"]
  by (simp add: pow2_def emin_def rne_def)

lemma fl_op_2:
  "round_fl Binary64 (720575940379279360 / 1080863910568919) = Fin (2932031007402667 / 4398046511104)"
  using round_fl_eval[where f = Binary64 and x = "720575940379279360 / 1080863910568919" and e = "9" and n = "5864062014805334"]
  by (simp add: pow2_def emin_def rne_def)

lemma fl_op_3:
  "round_fl Binary64 (37830236869912165 / 9007199254740992) = Fin (4728779608739021 / 1125899906842624)"
  using round_fl_eval[where f = Binary64 and x = "37830236869912165 / 9007199254740992" and e = "2" and n = "4728779608739021"]
  by (simp add: pow2_def emin_def rne_def)

lemma fl_op_4:
  "round_fl Binary64 (27021597764222975 / 4503599627370496) = Fin 6"
  using round_fl_eval[where f = Binary64 and x = "27021597764222975 / 4503599627370496" and e = "2" and n = "6755399441055744"]
  by (simp add: pow2_def emin_def rne_def)

lemma fl_op_5:
  "round_fl Binary64 (578262192154371665 / 9007199254740992) = Fin (4517673376206029 / 70368744177664)"
  using round_fl_eval[where f = Binary64 and x = "578262192154371665 / 9007199254740992" and e = "6" and n = "4517673376206029"]
  by (simp add: pow2_def emin_def rne_def)

lemma fl_op_6:
  "round_fl Binary64 (81064793292668925 / 2251799813685248) = Fin 36"
  using round_fl_eval[where f = Binary64 and x = "81064793292668925 / 2251799813685248" and e = "5" and n = "5066549580791808"]
  by (simp add: pow2_def emin_def rne_def)

lemma fl_op_7:
  "round_fl Binary64 (11484179049794765 / 1125899906842624) = Fin (2871044762448691 / 281474976710656)"
  using round_fl_eval[where f = Binary64 and x = "11484179049794765 / 1125899906842624" and e = "3" and n = "5742089524897382"]
  by (simp add: pow2_def emin_def rne_def)

lemma fl_op_8:
  "round_fl Binary64 (4939885841272013 / 70368744177664) = Fin (4939885841272013 / 70368744177664)"
  using round_fl_eval[where f = Binary64 and x = "4939885841272013 / 70368744177664" and e = "6" and n = "4939885841272013"]
  by (simp add: pow2_def emin_def rne_def)

lemma fl_op_9:
  "round_fl Binary64 (7050948166601933 / 70368744177664) = Fin (7050948166601933 / 70368744177664)"
  using round_fl_eval[where f = Binary64 and x = "7050948166601933 / 70368744177664" and e = "6" and n = "7050948166601933"]
  by (simp add: pow2_def emin_def rne_def)

lemma fl_op_10:
  "round_fl Binary64 (45261176255073485 / 1125899906842624) = Fin (2828823515942093 / 70368744177664)"
  using round_fl_eval[where f = Binary64 and x = "45261176255073485 / 1125899906842624" and e = "5" and n = "5657647031884186"]
  by (simp add: pow2_def emin_def rne_def)

lemma fl_op_11:
  "round_fl Binary64 (2026619832316723 / 1125899906842624) = Fin (2026619832316723 / 1125899906842624)"
  using round_fl_eval[where f = Binary64 and x = "2026619832316723 / 1125899906842624" and e = "0" and n = "8106479329266892"]
  by (simp add: pow2_def emin_def rne_def)

lemma fl_op_12:
  "round_fl Binary64 (- (4095460911140045 / 70368744177664)) = Fin (- (4095460911140045 / 70368744177664))"
  using round_fl_eval[where f = Binary64 and x = "- (4095460911140045 / 70368744177664)" and e = "5" and n = "- 8190921822280090"]
  by (simp add: pow2_def emin_def rne_def)

lemma fl_op_13:
  "round_fl Binary64 (- (1984398585810125 / 70368744177664)) = Fin (- (1984398585810125 / 70368744177664))"
  using round_fl_eval[where f = Binary64 and x = "- (1984398585810125 / 70368744177664)" and e = "4" and n = "- 7937594343240500"]
  by (simp add: pow2_def emin_def rne_def)

lemma fl_op_14:
  "round_fl Binary64 (35803617037595443 / 1125899906842624) = Fin (8950904259398861 / 281474976710656)"
  using round_fl_eval[where f = Binary64 and x = "35803617037595443 / 1125899906842624" and e = "4" and n = "8950904259398861"]
  by (simp add: pow2_def emin_def rne_def)

lemma fl_op_15:
  "round_fl Binary32 (4728779608739021 / 1125899906842624) = Fin (4404019 / 1048576)"
  using round_fl_eval[where f = Binary32 and x = "4728779608739021 / 1125899906842624" and e = "2" and n = "8808038"]
  by (simp add: pow2_def emin_def rne_def)

lemma fl_op_16:
  "round_fl Binary32 (4517673376206029 / 70368744177664) = Fin (4207411 / 65536)"
  using round_fl_eval[where f = Binary32 and x = "4517673376206029 / 70368744177664" and e = "6" and n = "8414822"]
  by (simp add: pow2_def emin_def rne_def)

lemma fl_op_17:
  "round_fl Binary32 (62914557 / 1048576) = Fin (15728639 / 262144)"
  using round_fl_eval[where f = Binary32 and x = "62914557 / 1048576" and e = "5" and n = "15728639"]
  by (simp add: pow2_def emin_def rne_def)

lemma fl_op_18:
  "round_fl Binary32 (247390084792321 / 68719476736) = Fin (7372799 / 2048)"
  using round_fl_eval[where f = Binary32 and x = "247390084792321 / 68719476736" and e = "11" and n = "14745598"]
  by (simp add: pow2_def emin_def rne_def)

lemma fl_op_19:
  "round_fl Binary32 (7372799 / 2048) = Fin (7372799 / 2048)"
  using round_fl_eval[where f = Binary32 and x = "7372799 / 2048" and e = "11" and n = "14745598"]
  by (simp add: pow2_def emin_def rne_def)

lemma fl_op_20:
  "round_fl Binary32 (sqrt (7372799 / 2048)) = Fin (15728639 / 262144)"
  using round_fl_sqrt_eval[where f = Binary32 and y = "7372799 / 2048" and e = "5" and n = "15728639"]
  by (simp add: pow2_def emin_def power2_eq_square)

lemma fl_op_21:
  "round_fl Binary32 (sqrt (900)) = Fin 30"
  using round_fl_sqrt_eval[where f = Binary32 and y = "900" and e = "4" and n = "15728640"]
  by (simp add: pow2_def emin_def power2_eq_square)

lemma fl_op_22:
  "round_fl Binary64 (7 / 4) = Fin (7 / 4)"
  using round_fl_eval[where f = Binary64 and x = "7 / 4" and e = "0" and n = "7881299347898368"]
  by (simp add: pow2_def emin_def rne_def)

lemma fl_op_23:
  "round_fl Binary64 (707 / 4) = Fin (707 / 4)"
  using round_fl_eval[where f = Binary64 and x = "707 / 4" and e = "7" and n = "6218837766701056"]
  by (simp add: pow2_def emin_def rne_def)

lemma fl_op_24:
  "round_fl Binary64 (357 / 4) = Fin (357 / 4)"
  using round_fl_eval[where f = Binary64 and x = "357 / 4" and e = "6" and n = "6280410417856512"]
  by (simp add: pow2_def emin_def rne_def)

lemma fl_op_25:
  "round_fl Binary64 (- (707 / 4)) = Fin (- (707 / 4))"
  using round_fl_eval[where f = Binary64 and x = "- (707 / 4)" and e = "7" and n = "- 6218837766701056"]
  by (simp add: pow2_def emin_def rne_def)

lemma fl_op_26:
  "round_fl Binary64 (- (175 / 2)) = Fin (- (175 / 2))"
  using round_fl_eval[where f = Binary64 and x = "- (175 / 2)" and e = "6" and n = "- 6157265115545600"]
  by (simp add: pow2_def emin_def rne_def)

lemma fl_op_27:
  "round_fl Binary32 (707 / 4) = Fin (707 / 4)"
  using round_fl_eval[where f = Binary32 and x = "707 / 4" and e = "7" and n = "11583488"]
  by (simp add: pow2_def emin_def rne_def)

lemma fl_op_28:
  "round_fl Binary32 (357 / 4) = Fin (357 / 4)"
  using round_fl_eval[where f = Binary32 and x = "357 / 4" and e = "6" and n = "11698176"]
  by (simp add: pow2_def emin_def rne_def)

lemma fl_op_29:
  "round_fl Binary32 (499849 / 16) = Fin (499849 / 16)"
  using round_fl_eval[where f = Binary32 and x = "499849 / 16" and e = "14" and n = "15995168"]
  by (simp add: pow2_def emin_def rne_def)

lemma fl_op_30:
  "round_fl Binary32 (sqrt (499849 / 16)) = Fin (707 / 4)"
  using round_fl_sqrt_eval[where f = Binary32 and y = "499849 / 16" and e = "7" and n = "11583488"]
  by (simp add: pow2_def emin_def power2_eq_square)

lemma fl_op_31:
  "round_fl Binary32 (- (357 / 4)) = Fin (- (357 / 4))"
  using round_fl_eval[where f = Binary32 and x = "- (357 / 4)" and e = "6" and n = "- 11698176"]
  by (simp add: pow2_def emin_def rne_def)

lemma fl_op_32:
  "round_fl Binary32 (127449 / 16) = Fin (127449 / 16)"
  using round_fl_eval[where f = Binary32 and x = "127449 / 16" and e = "12" and n = "16313472"]
  by (simp add: pow2_def emin_def rne_def)

lemma fl_op_33:
  "round_fl Binary32 (sqrt (127449 / 16)) = Fin (357 / 4)"
  using round_fl_sqrt_eval[where f = Binary32 and y = "127449 / 16" and e = "6" and n = "11698176"]
  by (simp add: pow2_def emin_def power2_eq_square)

lemma fl_op_34:
  "round_fl Binary32 (sqrt (3140)) = Fin (14689423 / 262144)"
  using round_fl_sqrt_eval[where f = Binary32 and y = "3140" and e = "5" and n = "14689423"]
  by (simp add: pow2_def emin_def power2_eq_square)

lemma fl_op_35:
  "round_fl Binary32 (sqrt (3604)) = Fin (491793 / 8192)"
  using round_fl_sqrt_eval[where f = Binary32 and y = "3604" and e = "5" and n = "15737376"]
  by (simp add: pow2_def emin_def power2_eq_square)

lemma fl_op_36:
  "round_fl Binary32 (sqrt (4100)) = Fin (8392703 / 131072)"
  using round_fl_sqrt_eval[where f = Binary32 and y = "4100" and e = "6" and n = "8392703"]
  by (simp add: pow2_def emin_def power2_eq_square)

lemma fl_op_37:
  "round_fl Binary64 (21 / 2) = Fin (21 / 2)"
  using round_fl_eval[where f = Binary64 and x = "21 / 2" and e = "3" and n = "5910974510923776"]
  by (simp add: pow2_def emin_def rne_def)

lemma fl_op_38:
  "round_fl Binary64 (- (1 / 2)) = Fin (- (1 / 2))"
  using round_fl_eval[where f = Binary64 and x = "- (1 / 2)" and e = "- 1" and n = "- 4503599627370496"]
  by (simp add: pow2_def emin_def rne_def)

lemma fl_op_39:
  "round_fl Binary64 (1 / 2) = Fin (1 / 2)"
  using round_fl_eval[where f = Binary64 and x = "1 / 2" and e = "- 1" and n = "4503599627370496"]
  by (simp add: pow2_def emin_def rne_def)

lemma fl_op_40:
  "round_fl Binary32 (11 / 2) = Fin (11 / 2)"
  using round_fl_eval[where f = Binary32 and x = "11 / 2" and e = "2" and n = "11534336"]
  by (simp add: pow2_def emin_def rne_def)

lemma fl_op_41:
  "round_fl Binary32 (1 / 2) = Fin (1 / 2)"
  using round_fl_eval[where f = Binary32 and x = "1 / 2" and e = "- 1" and n = "8388608"]
  by (simp add: pow2_def emin_def rne_def)

lemma fl_op_42:
  "round_fl Binary32 (1 / 4) = Fin (1 / 4)"
  using round_fl_eval[where f = Binary32 and x = "1 / 4" and e = "- 2" and n = "8388608"]
  by (simp add: pow2_def emin_def rne_def)

lemma fl_op_43:
  "round_fl Binary32 (sqrt (1 / 4)) = Fin (1 / 2)"
  using round_fl_sqrt_eval[where f = Binary32 and y = "1 / 4" and e = "- 1" and n = "8388608"]
  by (simp add: pow2_def emin_def power2_eq_square)

lemma fl_op_44:
  "round_fl Binary32 (- (1 / 2)) = Fin (- (1 / 2))"
  using round_fl_eval[where f = Binary32 and x = "- (1 / 2)" and e = "- 1" and n = "- 8388608"]
  by (simp add: pow2_def emin_def rne_def)

lemma fl_op_45:
  "round_fl Binary64 (27 / 50) = Fin (607985949695017 / 1125899906842624)"
  using round_fl_eval[where f = Binary64 and x = "27 / 50" and e = "- 1" and n = "4863887597560136"]
  by (simp add: pow2_def emin_def rne_def)

lemma fl_op_46:
  "round_fl Binary64 (607985949695016960 / 607985949695017) = Fin (8796093022207999 / 8796093022208)"
  using round_fl_eval[where f = Binary64 and x = "607985949695016960 / 607985949695017" and e = "9" and n = "8796093022207999"]
  by (simp add: pow2_def emin_def rne_def)

lemma fl_op_47:
  "round_fl Binary64 (4255901647865119 / 1125899906842624) = Fin (4255901647865119 / 1125899906842624)"
  using round_fl_eval[where f = Binary64 and x = "4255901647865119 / 1125899906842624" and e = "1" and n = "8511803295730238"]
  by (simp add: pow2_def emin_def rne_def)

lemma fl_op_48:
  "round_fl Binary64 (3039929748475085 / 562949953421312) = Fin (3039929748475085 / 562949953421312)"
  using round_fl_eval[where f = Binary64 and x = "3039929748475085 / 562949953421312" and e = "2" and n = "6079859496950170"]
  by (simp add: pow2_def emin_def rne_def)

lemma fl_op_49:
  "round_fl Binary64 (65054496617366819 / 1125899906842624) = Fin (2032953019292713 / 35184372088832)"
  using round_fl_eval[where f = Binary64 and x = "65054496617366819 / 1125899906842624" and e = "5" and n = "8131812077170852"]
  by (simp add: pow2_def emin_def rne_def)

lemma fl_op_50:
  "round_fl Binary64 (9119789245425255 / 281474976710656) = Fin (1139973655678157 / 35184372088832)"
  using round_fl_eval[where f = Binary64 and x = "9119789245425255 / 281474976710656" and e = "5" and n = "4559894622712628"]
  by (simp add: pow2_def emin_def rne_def)

lemma fl_op_51:
  "round_fl Binary64 (10335761144815289 / 1125899906842624) = Fin (1291970143101911 / 140737488355328)"
  using round_fl_eval[where f = Binary64 and x = "10335761144815289 / 1125899906842624" and e = "3" and n = "5167880572407644"]
  by (simp add: pow2_def emin_def rne_def)

lemma fl_op_52:
  "round_fl Binary64 (35567178057158493 / 562949953421312) = Fin (8891794514289623 / 140737488355328)"
  using round_fl_eval[where f = Binary64 and x = "35567178057158493 / 562949953421312" and e = "5" and n = "8891794514289623"]
  by (simp add: pow2_def emin_def rne_def)

lemma fl_op_53:
  "round_fl Binary64 (1586463337485435 / 17592186044416) = Fin (1586463337485435 / 17592186044416)"
  using round_fl_eval[where f = Binary64 and x = "1586463337485435 / 17592186044416" and e = "6" and n = "6345853349941740"]
  by (simp add: pow2_def emin_def rne_def)

lemma fl_op_54:
  "round_fl Binary64 (40735058629566143 / 1125899906842624) = Fin (636485291086971 / 17592186044416)"
  using round_fl_eval[where f = Binary64 and x = "40735058629566143 / 1125899906842624" and e = "5" and n = "5091882328695768"]
  by (simp add: pow2_def emin_def rne_def)

lemma fl_op_55:
  "round_fl Binary64 (1823957849085051 / 1125899906842624) = Fin (1823957849085051 / 1125899906842624)"
  using round_fl_eval[where f = Binary64 and x = "1823957849085051 / 1125899906842624" and e = "0" and n = "7295831396340204"]
  by (simp add: pow2_def emin_def rne_def)

lemma fl_op_56:
  "round_fl Binary64 (- (29487318560208323 / 562949953421312)) = Fin (- (7371829640052081 / 140737488355328))"
  using round_fl_eval[where f = Binary64 and x = "- (29487318560208323 / 562949953421312)" and e = "5" and n = "- 7371829640052081"]
  by (simp add: pow2_def emin_def rne_def)

lemma fl_op_57:
  "round_fl Binary64 (- (223244840903639 / 8796093022208)) = Fin (- (223244840903639 / 8796093022208))"
  using round_fl_eval[where f = Binary64 and x = "- (223244840903639 / 8796093022208)" and e = "4" and n = "- 7143834908916448"]
  by (simp add: pow2_def emin_def rne_def)

lemma fl_op_58:
  "round_fl Binary64 (32223255333835905 / 1125899906842624) = Fin (251744182295593 / 8796093022208)"
  using round_fl_eval[where f = Binary64 and x = "32223255333835905 / 1125899906842624" and e = "4" and n = "8055813833458976"]
  by (simp add: pow2_def emin_def rne_def)

lemma fl_op_59:
  "round_fl Binary32 (4255901647865119 / 1125899906842624) = Fin (15854469 / 4194304)"
  using round_fl_eval[where f = Binary32 and x = "4255901647865119 / 1125899906842624" and e = "1" and n = "15854469"]
  by (simp add: pow2_def emin_def rne_def)

lemma fl_op_60:
  "round_fl Binary32 (3039929748475085 / 562949953421312) = Fin (11324621 / 2097152)"
  using round_fl_eval[where f = Binary32 and x = "3039929748475085 / 562949953421312" and e = "2" and n = "11324621"]
  by (simp add: pow2_def emin_def rne_def)

lemma fl_op_61:
  "round_fl Binary32 (2032953019292713 / 35184372088832) = Fin (1893335 / 32768)"
  using round_fl_eval[where f = Binary32 and x = "2032953019292713 / 35184372088832" and e = "5" and n = "15146680"]
  by (simp add: pow2_def emin_def rne_def)

lemma fl_op_62:
  "round_fl Binary32 (1139973655678157 / 35184372088832) = Fin (4246733 / 131072)"
  using round_fl_eval[where f = Binary32 and x = "1139973655678157 / 35184372088832" and e = "5" and n = "8493466"]
  by (simp add: pow2_def emin_def rne_def)

lemma fl_op_63:
  "round_fl Binary32 (226492411 / 4194304) = Fin 54"
  using round_fl_eval[where f = Binary32 and x = "226492411 / 4194304" and e = "5" and n = "14155776"]
  by (simp add: pow2_def emin_def rne_def)

lemma fl_op_64:
  "round_fl Binary32 (sqrt (2916)) = Fin 54"
  using round_fl_sqrt_eval[where f = Binary32 and y = "2916" and e = "5" and n = "14155776"]
  by (simp add: pow2_def emin_def power2_eq_square)

lemma fl_op_65:
  "round_fl Binary32 (- (56623107 / 2097152)) = Fin (- (14155777 / 524288))"
  using round_fl_eval[where f = Binary32 and x = "- (56623107 / 2097152)" and e = "4" and n = "- 14155777"]
  by (simp add: pow2_def emin_def rne_def)

lemma fl_op_66:
  "round_fl Binary32 (200386022473729 / 274877906944) = Fin (5971969 / 8192)"
  using round_fl_eval[where f = Binary32 and x = "200386022473729 / 274877906944" and e = "9" and n = "11943938"]
  by (simp add: pow2_def emin_def rne_def)

lemma fl_op_67:
  "round_fl Binary32 (5971969 / 8192) = Fin (5971969 / 8192)"
  using round_fl_eval[where f = Binary32 and x = "5971969 / 8192" and e = "9" and n = "11943938"]
  by (simp add: pow2_def emin_def rne_def)

lemma fl_op_68:
  "round_fl Binary32 (sqrt (5971969 / 8192)) = Fin (14155777 / 524288)"
  using round_fl_sqrt_eval[where f = Binary32 and y = "5971969 / 8192" and e = "4" and n = "14155777"]
  by (simp add: pow2_def emin_def power2_eq_square)

lemma fl_op_69:
  "round_fl Binary64 (1180591620717411303424) = Fin 1180591620717411303424"
  using round_fl_eval[where f = Binary64 and x = "1180591620717411303424" and e = "70" and n = "4503599627370496"]
  by (simp add: pow2_def emin_def rne_def)

lemma fl_op_70:
  "round_fl Binary64 (2361183241434822606848) = Fin 2361183241434822606848"
  using round_fl_eval[where f = Binary64 and x = "2361183241434822606848" and e = "71" and n = "4503599627370496"]
  by (simp add: pow2_def emin_def rne_def)

lemma fl_op_71:
  "round_fl Binary64 (- 1180591620717411303424) = Fin (- 1180591620717411303424)"
  using round_fl_eval[where f = Binary64 and x = "- 1180591620717411303424" and e = "70" and n = "- 4503599627370496"]
  by (simp add: pow2_def emin_def rne_def)

lemma fl_op_72:
  "round_fl Binary32 (1180591620717411303424) = Fin 1180591620717411303424"
  using round_fl_eval[where f = Binary32 and x = "1180591620717411303424" and e = "70" and n = "8388608"]
  by (simp add: pow2_def emin_def rne_def)

lemmas fl_ops = fl_op_1 fl_op_2 fl_op_3 fl_op_4 fl_op_5 fl_op_6 fl_op_7 fl_op_8 fl_op_9 fl_op_10 fl_op_11 fl_op_12 fl_op_13 fl_op_14 fl_op_15 fl_op_16 fl_op_17 fl_op_18 fl_op_19 fl_op_20 fl_op_21 fl_op_22 fl_op_23 fl_op_24 fl_op_25 fl_op_26 fl_op_27 fl_op_28 fl_op_29 fl_op_30 fl_op_31 fl_op_32 fl_op_33 fl_op_34 fl_op_35 fl_op_36 fl_op_37 fl_op_38 fl_op_39 fl_op_40 fl_op_41 fl_op_42 fl_op_43 fl_op_44 fl_op_45 fl_op_46 fl_op_47 fl_op_48 fl_op_49 fl_op_50 fl_op_51 fl_op_52 fl_op_53 fl_op_54 fl_op_55 fl_op_56 fl_op_57 fl_op_58 fl_op_59 fl_op_60 fl_op_61 fl_op_62 fl_op_63 fl_op_64 fl_op_65 fl_op_66 fl_op_67 fl_op_68 fl_op_69 fl_op_70 fl_op_71 fl_op_72

subsection \<open>Corner ordering and destination size of the example quadrilaterals\<close>

lemma narrow_order:
  "order_points [(Fin (4728779608739021 / 2 ^ 50), Fin 6), (Fin (4517673376206029 / 2 ^ 46), Fin 6), (Fin (4517673376206029 / 2 ^ 46), Fin 36), (Fin (4728779608739021 / 2 ^ 50), Fin 36)] =
     Inr [(Fin (4404019 / 2 ^ 20), Fin 6), (Fin (4207411 / 2 ^ 16), Fin 6), (Fin (4207411 / 2 ^ 16), Fin 36), (Fin (4404019 / 2 ^ 20), Fin 36)]"
  by (simp add: order_points_eq sum_axis1_def diff_axis1_def row_sum_def row_diff_def astype32_def
      fl_ops round_small)

lemma narrow_side1: "side32 (Fin (4207411 / 2 ^ 16), Fin 36) (Fin (4404019 / 2 ^ 20), Fin 36) = Fin (15728639 / 2 ^ 18)"
  by (simp add: side32_def Let_def fl_ops round_small)

lemma narrow_side2: "side32 (Fin (4207411 / 2 ^ 16), Fin 6) (Fin (4404019 / 2 ^ 20), Fin 6) = Fin (15728639 / 2 ^ 18)"
  by (simp add: side32_def Let_def fl_ops round_small)

lemma narrow_side3: "side32 (Fin (4207411 / 2 ^ 16), Fin 6) (Fin (4207411 / 2 ^ 16), Fin 36) = Fin 30"
  by (simp add: side32_def Let_def fl_ops round_small)

lemma narrow_side4: "side32 (Fin (4404019 / 2 ^ 20), Fin 6) (Fin (4404019 / 2 ^ 20), Fin 36) = Fin 30"
  by (simp add: side32_def Let_def fl_ops round_small)

lemma narrow_size: "dest_size [(Fin (4404019 / 2 ^ 20), Fin 6), (Fin (4207411 / 2 ^ 16), Fin 6), (Fin (4207411 / 2 ^ 16), Fin 36), (Fin (4404019 / 2 ^ 20), Fin 36)] = Inr (59, 30)"
  using dest_size_finite[of "[(Fin (4404019 / 2 ^ 20), Fin 6), (Fin (4207411 / 2 ^ 16), Fin 6), (Fin (4207411 / 2 ^ 16), Fin 36), (Fin (4404019 / 2 ^ 20), Fin 36)]" "15728639 / 2 ^ 18" "15728639 / 2 ^ 18" "30" "30"]
    narrow_side1 narrow_side2 narrow_side3 narrow_side4
  by simp








lemma sheet_side1: "side32 (Fin 68, Fin 76) (Fin 12, Fin 74) = Fin (14689423 / 2 ^ 18)"
  by (simp add: side32_def Let_def fl_ops round_small)

lemma sheet_side2: "side32 (Fin 70, Fin 12) (Fin 10, Fin 10) = Fin (491793 / 2 ^ 13)"
  by (simp add: side32_def Let_def fl_ops round_small)

lemma sheet_side3: "side32 (Fin 70, Fin 12) (Fin 68, Fin 76) = Fin (8392703 / 2 ^ 17)"
  by (simp add: side32_def Let_def fl_ops round_small)

lemma sheet_side4: "side32 (Fin 10, Fin 10) (Fin 12, Fin 74) = Fin (8392703 / 2 ^ 17)"
  by (simp add: side32_def Let_def fl_ops round_small)

lemma sheet_size: "dest_size [(Fin 10, Fin 10), (Fin 70, Fin 12), (Fin 68, Fin 76), (Fin 12, Fin 74)] = Inr (60, 64)"
  using dest_size_finite[of "[(Fin 10, Fin 10), (Fin 70, Fin 12), (Fin 68, Fin 76), (Fin 12, Fin 74)]" "14689423 / 2 ^ 18" "491793 / 2 ^ 13" "8392703 / 2 ^ 17" "8392703 / 2 ^ 17"]
    sheet_side1 sheet_side2 sheet_side3 sheet_side4
  by simp

lemma tiny_order:
  "order_points [(Fin 5, Fin 5), (Fin (11 / 2 ^ 1), Fin 5), (Fin (11 / 2 ^ 1), Fin (11 / 2 ^ 1)), (Fin 5, Fin (11 / 2 ^ 1))] =
     Inr [(Fin 5, Fin 5), (Fin (11 / 2 ^ 1), Fin 5), (Fin (11 / 2 ^ 1), Fin (11 / 2 ^ 1)), (Fin 5, Fin (11 / 2 ^ 1))]"
  by (simp add: order_points_eq sum_axis1_def diff_axis1_def row_sum_def row_diff_def astype32_def
      fl_ops round_small)

lemma tiny_side1: "side32 (Fin (11 / 2 ^ 1), Fin (11 / 2 ^ 1)) (Fin 5, Fin (11 / 2 ^ 1)) = Fin (1 / 2 ^ 1)"
  by (simp add: side32_def Let_def fl_ops round_small)

lemma tiny_side2: "side32 (Fin (11 / 2 ^ 1), Fin 5) (Fin 5, Fin 5) = Fin (1 / 2 ^ 1)"
  by (simp add: side32_def Let_def fl_ops round_small)

lemma tiny_side3: "side32 (Fin (11 / 2 ^ 1), Fin 5) (Fin (11 / 2 ^ 1), Fin (11 / 2 ^ 1)) = Fin (1 / 2 ^ 1)"
  by (simp add: side32_def Let_def fl_ops round_small)

lemma tiny_side4: "side32 (Fin 5, Fin 5) (Fin 5, Fin (11 / 2 ^ 1)) = Fin (1 / 2 ^ 1)"
  by (simp add: side32_def Let_def fl_ops round_small)

lemma tiny_size: "dest_size [(Fin 5, Fin 5), (Fin (11 / 2 ^ 1), Fin 5), (Fin (11 / 2 ^ 1), Fin (11 / 2 ^ 1)), (Fin 5, Fin (11 / 2 ^ 1))] = Inr (0, 0)"
  using dest_size_finite[of "[(Fin 5, Fin 5), (Fin (11 / 2 ^ 1), Fin 5), (Fin (11 / 2 ^ 1), Fin (11 / 2 ^ 1)), (Fin 5, Fin (11 / 2 ^ 1))]" "1 / 2 ^ 1" "1 / 2 ^ 1" "1 / 2 ^ 1" "1 / 2 ^ 1"]
    tiny_side1 tiny_side2 tiny_side3 tiny_side4
  by simp

lemma receipt_order:
  "order_points [(Fin (4255901647865119 / 2 ^ 50), Fin (3039929748475085 / 2 ^ 49)), (Fin (2032953019292713 / 2 ^ 45), Fin (3039929748475085 / 2 ^ 49)), (Fin (2032953019292713 / 2 ^ 45), Fin (1139973655678157 / 2 ^ 45)), (Fin (4255901647865119 / 2 ^ 50), Fin (1139973655678157 / 2 ^ 45))] =
     Inr [(Fin (15854469 / 2 ^ 22), Fin (11324621 / 2 ^ 21)), (Fin (1893335 / 2 ^ 15), Fin (11324621 / 2 ^ 21)), (Fin (1893335 / 2 ^ 15), Fin (4246733 / 2 ^ 17)), (Fin (15854469 / 2 ^ 22), Fin (4246733 / 2 ^ 17))]"
  by (simp add: order_points_eq sum_axis1_def diff_axis1_def row_sum_def row_diff_def astype32_def
      fl_ops round_small)

lemma receipt_side1: "side32 (Fin (1893335 / 2 ^ 15), Fin (4246733 / 2 ^ 17)) (Fin (15854469 / 2 ^ 22), Fin (4246733 / 2 ^ 17)) = Fin 54"
  by (simp add: side32_def Let_def fl_ops round_small)

lemma receipt_side2: "side32 (Fin (1893335 / 2 ^ 15), Fin (11324621 / 2 ^ 21)) (Fin (15854469 / 2 ^ 22), Fin (11324621 / 2 ^ 21)) = Fin 54"
  by (simp add: side32_def Let_def fl_ops round_small)

lemma receipt_side3: "side32 (Fin (1893335 / 2 ^ 15), Fin (11324621 / 2 ^ 21)) (Fin (1893335 / 2 ^ 15), Fin (4246733 / 2 ^ 17)) = Fin (14155777 / 2 ^ 19)"
  by (simp add: side32_def Let_def fl_ops round_small)

lemma receipt_side4: "side32 (Fin (15854469 / 2 ^ 22), Fin (11324621 / 2 ^ 21)) (Fin (15854469 / 2 ^ 22), Fin (4246733 / 2 ^ 17)) = Fin (14155777 / 2 ^ 19)"
  by (simp add: side32_def Let_def fl_ops round_small)

lemma receipt_size: "dest_size [(Fin (15854469 / 2 ^ 22), Fin (11324621 / 2 ^ 21)), (Fin (1893335 / 2 ^ 15), Fin (11324621 / 2 ^ 21)), (Fin (1893335 / 2 ^ 15), Fin (4246733 / 2 ^ 17)), (Fin (15854469 / 2 ^ 22), Fin (4246733 / 2 ^ 17))] = Inr (54, 27)"
  using dest_size_finite[of "[(Fin (15854469 / 2 ^ 22), Fin (11324621 / 2 ^ 21)), (Fin (1893335 / 2 ^ 15), Fin (11324621 / 2 ^ 21)), (Fin (1893335 / 2 ^ 15), Fin (4246733 / 2 ^ 17)), (Fin (15854469 / 2 ^ 22), Fin (4246733 / 2 ^ 17))]" "54" "54" "14155777 / 2 ^ 19" "14155777 / 2 ^ 19"]
    receipt_side1 receipt_side2 receipt_side3 receipt_side4
  by simp

subsection \<open>The stand-in on the example photos\<close>

lemma sim_area: "contourArea sim_cv c = \<bar>real_of_int (shoelace c)\<bar> / 2"
  by (simp add: sim_cv_def)

lemma sim_find: "findContours sim_cv i = sim_contours i"
  by (simp add: sim_cv_def)

lemma sim_simplify: "simplify sim_cv c = c"
  by (simp add: sim_cv_def simplify_def)

lemma sim_shape_eq: "shape sim_cv i = sim_shape i"
  by (simp add: sim_cv_def)

lemma sim_resize: "resize sim_cv i d = Resized i d"
  by (simp add: sim_cv_def)

lemma sim_working_copy:
  "working_copy sim_cv (Photo 1000 800 cs) = Resized (Photo 1000 800 cs) (400, 500)"
  by (simp add: working_copy_def scaled_width_def scale_ratio_def sim_shape_eq sim_resize
      float_of_int_def round_small)

lemma receipt_ratio: "scale_ratio sim_cv receipt_photo = Fin (607985949695017 / 2 ^ 50)"
  by (simp add: scale_ratio_def sim_shape_eq receipt_photo_def float_of_int_def fl_ops round_small)

lemma receipt_width: "scaled_width sim_cv receipt_photo = Fin (8796093022207999 / 2 ^ 43)"
  by (simp add: scaled_width_def receipt_ratio)
     (simp add: sim_shape_eq receipt_photo_def float_of_int_def fl_ops round_small)

lemma receipt_working_copy: "working_copy sim_cv receipt_photo = Resized receipt_photo (999, 500)"
  by (simp add: working_copy_def receipt_width sim_resize)

lemma sim_edge_map: "edge_map sim_cv i = Eroded (Dilated (Edges (Blurred (Converted i COLOR_BGR2GRAY))))"
  by (simp add: edge_map_def sim_cv_def)

lemma desk_candidates: "candidates sim_cv (edge_map sim_cv (working_copy sim_cv desk_photo)) =
   [desk, sheet, [(0, 0), (30, 0), (0, 30)], [(10, 10), (20, 10), (20, 20), (10, 20)], [(0, 0), (3, 0), (0, 3)]]"
  by (simp add: desk_photo_def sim_working_copy sim_edge_map candidates_def sim_find sim_area sorted_reverse_def shoelace_def desk_def sheet_def)

lemma desk_find_quad: "find_quad sim_cv (candidates sim_cv (edge_map sim_cv (working_copy sim_cv desk_photo))) = Some sheet"
  by (simp add: desk_candidates sim_simplify desk_def sheet_def)

lemma blank_candidates: "candidates sim_cv (edge_map sim_cv (working_copy sim_cv blank_photo)) = []"
  by (simp add: blank_photo_def sim_working_copy sim_edge_map candidates_def sim_find sorted_reverse_def)

lemma cluttered_candidates:
  "candidates sim_cv (edge_map sim_cv (working_copy sim_cv cluttered_photo)) =
     [desk, [(0, 0), (3, 0), (0, 3)]]"
  by (simp add: cluttered_photo_def sim_working_copy sim_edge_map candidates_def sim_find sim_area sorted_reverse_def
      shoelace_def desk_def)

lemma receipt_find_quad:
  "find_quad sim_cv (candidates sim_cv (edge_map sim_cv (working_copy sim_cv receipt_photo))) = Some receipt"
  by (simp add: receipt_working_copy sim_edge_map candidates_def sim_find sorted_reverse_def)
     (simp add: receipt_photo_def sim_simplify receipt_def)

theorem quad_selection_witness:
  "(let cnts = candidates sim_cv (edge_map sim_cv (working_copy sim_cv desk_photo)) in
     length (findContours sim_cv (edge_map sim_cv (working_copy sim_cv desk_photo))) = 7 \<and>
     cnts = [desk, sheet, [(0, 0), (30, 0), (0, 30)], [(10, 10), (20, 10), (20, 20), (10, 20)],
             [(0, 0), (3, 0), (0, 3)]] \<and>
     length (simplify sim_cv desk) = 5 \<and>
     find_quad sim_cv cnts = Some sheet \<and>
     (\<exists>i<length cnts. sheet = simplify sim_cv (cnts ! i) \<and>
        (\<forall>rest. find_quad sim_cv (take (Suc i) cnts @ rest) = Some sheet)))"
proof -
  let ?e = "edge_map sim_cv (working_copy sim_cv desk_photo)"
  have n: "length (findContours sim_cv ?e) = 7"
    by (simp add: desk_photo_def sim_working_copy sim_edge_map sim_find)
  have d: "length (simplify sim_cv desk) = 5"
    by (simp add: sim_simplify desk_def)
  from quad_selection[of sim_cv ?e]
  have "\<exists>i<length (candidates sim_cv ?e). sheet = simplify sim_cv (candidates sim_cv ?e ! i) \<and>
        (\<forall>rest. find_quad sim_cv (take (Suc i) (candidates sim_cv ?e) @ rest) = Some sheet)"
    unfolding Let_def desk_find_quad by auto
  with n d desk_find_quad desk_candidates show ?thesis unfolding Let_def by simp
qed

text \<open>
  C3, as the spec states it: without a four-sided candidate the scan returns a tagged
  failure and logs nothing. On a photo without edges the code prints one line and
  returns the bare \<^verbatim>\<open>None\<close>.
\<close>

theorem scan_document_prints_counterexample:
  "find_quad sim_cv (candidates sim_cv (edge_map sim_cv (working_copy sim_cv blank_photo))) = None \<and>
   fst (scan_document sim_cv [''blank.png'' \<mapsto> blank_photo] ''blank.png'') =
     [''No document detected. Please try another image.''] \<and>
   fst (scan_document sim_cv [''blank.png'' \<mapsto> blank_photo] ''blank.png'') \<noteq> [] \<and>
   snd (scan_document sim_cv [''blank.png'' \<mapsto> blank_photo] ''blank.png'') = Inr ReturnNone"
proof -
  have f: "[''blank.png'' \<mapsto> blank_photo] ''blank.png'' = Some blank_photo" by simp
  have h: "fst (shape sim_cv blank_photo) \<noteq> 0"
    by (simp add: sim_shape_eq blank_photo_def)
  show ?thesis
    using scan_document_unfold[where files = "[''blank.png'' \<mapsto> blank_photo]"
      and image_path = "''blank.png''", OF f h]
    by (simp add: blank_candidates no_document_message_def)
qed

theorem scan_document_no_document_witness:
  "[''scan.jpg'' \<mapsto> cluttered_photo] ''scan.jpg'' = Some cluttered_photo \<and>
   fst (shape sim_cv cluttered_photo) \<noteq> 0 \<and>
   candidates sim_cv (edge_map sim_cv (working_copy sim_cv cluttered_photo)) =
     [desk, [(0, 0), (3, 0), (0, 3)]] \<and>
   length (approxPolyDP sim_cv desk (2 / 100 * arcLength sim_cv desk True) True) = 5 \<and>
   scan_document sim_cv [''scan.jpg'' \<mapsto> cluttered_photo] ''scan.jpg'' =
     ([''No document detected. Please try another image.''], Inr ReturnNone)"
proof -
  have f: "[''scan.jpg'' \<mapsto> cluttered_photo] ''scan.jpg'' = Some cluttered_photo" by simp
  have h: "fst (shape sim_cv cluttered_photo) \<noteq> 0"
    by (simp add: sim_shape_eq cluttered_photo_def)
  have a: "approxPolyDP sim_cv c e b = c" for c e b by (simp add: sim_cv_def)
  have n: "\<forall>c \<in> set (candidates sim_cv (edge_map sim_cv (working_copy sim_cv cluttered_photo))).
           length (approxPolyDP sim_cv c (2 / 100 * arcLength sim_cv c True) True) \<noteq> 4"
    by (simp add: cluttered_candidates a desk_def)
  from scan_document_no_document[where files = "[''scan.jpg'' \<mapsto> cluttered_photo]"
      and image_path = "''scan.jpg''", OF f h n] f h cluttered_candidates
  show ?thesis by (simp add: a desk_def)
qed



lemma order_points_diamond:
  "strictly_convex (5, 0) (10, 5) (5, 10) (0, 5) \<and>
   order_points [(Fin 0, Fin 5), (Fin 5, Fin 0), (Fin 10, Fin 5), (Fin 5, Fin 10)] =
     Inr [(Fin 0, Fin 5), (Fin 5, Fin 0), (Fin 10, Fin 5), (Fin 0, Fin 5)]"
  by (simp add: strictly_convex_def turn_def order_points_eq sum_axis1_def diff_axis1_def
      row_sum_def row_diff_def astype32_def round_small)

lemma narrow_scaled:
  "scale_contour receipt (fl_div Binary64 (Fin 300) (Fin 500)) =
     [(Fin (4728779608739021 / 2 ^ 50), Fin 6), (Fin (4517673376206029 / 2 ^ 46), Fin 6),
      (Fin (4517673376206029 / 2 ^ 46), Fin 36), (Fin (4728779608739021 / 2 ^ 50), Fin 36)]"
  by (simp add: scale_contour_def receipt_def float_of_int_def fl_ops round_small)

text \<open>
  C5, as the spec states it: for a convex, roughly axis-aligned quadrilateral the result
  is a permutation of the input. \<^verbatim>\<open>rect\<close> is a \<^verbatim>\<open>float32\<close> array. The contour
  \<open>(7,10), (107,10), (107,60), (7,60)\<close>, found at ratio 0.6 (a photo of height 300),
  scales to an axis-aligned rectangle with \<^verbatim>\<open>float64\<close> corners such as \<open>(4.2, 6)\<close>;
  \<^verbatim>\<open>float32\<close> has no 4.2 and the result holds 4.19999981 in its place. No point of the
  result is a point of the input, and the width computed from the result is 59, not 60.
\<close>

theorem order_points_narrowing_counterexample:
  "scale_contour receipt (fl_div Binary64 (Fin 300) (Fin 500)) =
     [fpoint (4728779608739021 / 2 ^ 50, 6), fpoint (4517673376206029 / 2 ^ 46, 6),
      fpoint (4517673376206029 / 2 ^ 46, 36), fpoint (4728779608739021 / 2 ^ 50, 36)] \<and>
   roughly_axis_aligned (4728779608739021 / 2 ^ 50, 6) (4517673376206029 / 2 ^ 46, 6)
     (4517673376206029 / 2 ^ 46, 36) (4728779608739021 / 2 ^ 50, 36) \<and>
   strictly_convex (4728779608739021 / 2 ^ 50, 6) (4517673376206029 / 2 ^ 46, 6)
     (4517673376206029 / 2 ^ 46, 36) (4728779608739021 / 2 ^ 50, 36) \<and>
   order_points
     [fpoint (4728779608739021 / 2 ^ 50, 6), fpoint (4517673376206029 / 2 ^ 46, 6),
      fpoint (4517673376206029 / 2 ^ 46, 36), fpoint (4728779608739021 / 2 ^ 50, 36)] =
     Inr [(Fin (4404019 / 2 ^ 20), Fin 6), (Fin (4207411 / 2 ^ 16), Fin 6),
          (Fin (4207411 / 2 ^ 16), Fin 36), (Fin (4404019 / 2 ^ 20), Fin 36)] \<and>
   set [(Fin (4404019 / 2 ^ 20), Fin 6), (Fin (4207411 / 2 ^ 16), Fin 6),
        (Fin (4207411 / 2 ^ 16), Fin 36), (Fin (4404019 / 2 ^ 20), Fin 36)] \<inter>
     set [fpoint (4728779608739021 / 2 ^ 50, 6), fpoint (4517673376206029 / 2 ^ 46, 6),
          fpoint (4517673376206029 / 2 ^ 46, 36), fpoint (4728779608739021 / 2 ^ 50, 36)] = {} \<and>
   mset [(Fin (4404019 / 2 ^ 20), Fin 6), (Fin (4207411 / 2 ^ 16), Fin 6),
         (Fin (4207411 / 2 ^ 16), Fin 36), (Fin (4404019 / 2 ^ 20), Fin 36)] \<noteq>
     mset [fpoint (4728779608739021 / 2 ^ 50, 6), fpoint (4517673376206029 / 2 ^ 46, 6),
           fpoint (4517673376206029 / 2 ^ 46, 36), fpoint (4728779608739021 / 2 ^ 50, 36)] \<and>
   dest_size [(Fin (4404019 / 2 ^ 20), Fin 6), (Fin (4207411 / 2 ^ 16), Fin 6),
              (Fin (4207411 / 2 ^ 16), Fin 36), (Fin (4404019 / 2 ^ 20), Fin 36)] = Inr (59, 30)"
proof -
  let ?pts = "[fpoint (4728779608739021 / 2 ^ 50, 6), fpoint (4517673376206029 / 2 ^ 46, 6),
      fpoint (4517673376206029 / 2 ^ 46, 36), fpoint (4728779608739021 / 2 ^ 50, 36)]"
  let ?rect = "[(Fin (4404019 / 2 ^ 20), Fin 6), (Fin (4207411 / 2 ^ 16), Fin 6),
          (Fin (4207411 / 2 ^ 16), Fin 36), (Fin (4404019 / 2 ^ 20), Fin 36)]"
  have s: "scale_contour receipt (fl_div Binary64 (Fin 300) (Fin 500)) = ?pts"
    using narrow_scaled by (simp add: fpoint_def)
  have a: "roughly_axis_aligned (4728779608739021 / 2 ^ 50, 6) (4517673376206029 / 2 ^ 46, 6)
     (4517673376206029 / 2 ^ 46, 36) (4728779608739021 / 2 ^ 50, 36)"
    by (simp add: roughly_axis_aligned_def aligned_by_def)
  have c: "strictly_convex (4728779608739021 / 2 ^ 50, 6) (4517673376206029 / 2 ^ 46, 6)
     (4517673376206029 / 2 ^ 46, 36) (4728779608739021 / 2 ^ 50, 36)"
    using a by (rule roughly_axis_aligned_convex)
  have p: "?pts = [(Fin (4728779608739021 / 2 ^ 50), Fin 6), (Fin (4517673376206029 / 2 ^ 46), Fin 6),
      (Fin (4517673376206029 / 2 ^ 46), Fin 36), (Fin (4728779608739021 / 2 ^ 50), Fin 36)]"
    by (simp add: fpoint_def)
  have or: "order_points ?pts = Inr ?rect" unfolding p by (rule narrow_order)
  have d: "set ?rect \<inter> set ?pts = {}" by (simp add: fpoint_def)
  then have "set ?rect \<noteq> set ?pts" by auto
  then have m: "mset ?rect \<noteq> mset ?pts" using mset_eq_setD by blast
  from s a c or d m narrow_size show ?thesis by blast
qed




lemma sim_warp:
  "warpPerspective sim_cv i (getPerspectiveTransform sim_cv src dst) d = Warped i (Homography src dst) d"
  by (simp add: sim_cv_def)


lemma tiny_fpt:
  "four_point_transform sim_cv desk_photo
     [(Fin 5, Fin 5), (Fin (11 / 2), Fin 5), (Fin (11 / 2), Fin (11 / 2)), (Fin 5, Fin (11 / 2))] =
     Inr (Warped desk_photo
            (Homography
               [(Fin 5, Fin 5), (Fin (11 / 2), Fin 5), (Fin (11 / 2), Fin (11 / 2)), (Fin 5, Fin (11 / 2))]
               [(Fin 0, Fin 0), (Fin (- 1), Fin 0), (Fin (- 1), Fin (- 1)), (Fin 0, Fin (- 1))])
            (0, 0))"
  using tiny_order tiny_size
  by (simp add: four_point_transform_def dst_corners_def sim_warp float_of_int_def)

text \<open>
  C7, as the spec states it: a corner set whose destination width or height is zero is
  reported as a failure. For a square of side one half the code computes the size
  \<open>(0, 0)\<close>, asks for the transform onto the corners \<open>(0,0), (-1,0), (-1,-1), (0,-1)\<close>
  and returns what the warp makes of it.
\<close>

theorem four_point_transform_degenerate_counterexample:
  "dest_size
     [(Fin 5, Fin 5), (Fin (11 / 2), Fin 5), (Fin (11 / 2), Fin (11 / 2)), (Fin 5, Fin (11 / 2))] =
     Inr (0, 0) \<and>
   four_point_transform sim_cv desk_photo
     [(Fin 5, Fin 5), (Fin (11 / 2), Fin 5), (Fin (11 / 2), Fin (11 / 2)), (Fin 5, Fin (11 / 2))] =
     Inr (Warped desk_photo
            (Homography
               [(Fin 5, Fin 5), (Fin (11 / 2), Fin 5), (Fin (11 / 2), Fin (11 / 2)), (Fin 5, Fin (11 / 2))]
               [(Fin 0, Fin 0), (Fin (- 1), Fin 0), (Fin (- 1), Fin (- 1)), (Fin 0, Fin (- 1))])
            (0, 0))"
  using tiny_size tiny_fpt by simp

lemma huge_order:
  "order_points [(Fin 0, Fin 0), (Fin (2 ^ 70), Fin 0), (Fin (2 ^ 70), Fin (2 ^ 70)), (Fin 0, Fin (2 ^ 70))] =
     Inr [(Fin 0, Fin 0), (Fin (2 ^ 70), Fin 0), (Fin (2 ^ 70), Fin (2 ^ 70)), (Fin 0, Fin (2 ^ 70))]"
  by (simp add: order_points_eq sum_axis1_def diff_axis1_def row_sum_def row_diff_def astype32_def
      fl_ops round_small)

lemma huge_square: "round_fl Binary32 (2 ^ 70 * 2 ^ 70) = PInf"
  by (rule round_fl_overflow) (simp add: pow2_def)

lemma huge_side: "side32 (Fin (2 ^ 70), Fin (2 ^ 70)) (Fin 0, Fin (2 ^ 70)) = PInf"
proof -
  have d: "fl_sub Binary32 (Fin (2 ^ 70)) (Fin 0) = Fin (2 ^ 70)"
    by (simp add: fl_ops)
  have z: "fl_sub Binary32 (Fin (2 ^ 70)) (Fin (2 ^ 70)) = Fin 0" by simp
  have m: "fl_mul Binary32 (Fin (2 ^ 70)) (Fin (2 ^ 70)) = PInf"
    using huge_square by simp
  show ?thesis
    unfolding side32_def Let_def fst_conv snd_conv d z m by simp
qed

lemma huge_size:
  "dest_size [(Fin 0, Fin 0), (Fin (2 ^ 70), Fin 0), (Fin (2 ^ 70), Fin (2 ^ 70)), (Fin 0, Fin (2 ^ 70))] =
     Inl OverflowError"
  using huge_side by (simp add: dest_size_def)

theorem four_point_transform_no_check_witness:
  "[(Fin 5, Fin 5), (Fin (11 / 2), Fin 5), (Fin (11 / 2), Fin (11 / 2)), (Fin 5, Fin (11 / 2))] \<noteq>
     ([] :: point list) \<and>
   dest_size
     [(Fin 5, Fin 5), (Fin (11 / 2), Fin 5), (Fin (11 / 2), Fin (11 / 2)), (Fin 5, Fin (11 / 2))] =
     Inr (0, 0) \<and>
   side32 (Fin (11 / 2), Fin (11 / 2)) (Fin 5, Fin (11 / 2)) = Fin (1 / 2) \<and>
   four_point_transform sim_cv desk_photo
     [(Fin 5, Fin 5), (Fin (11 / 2), Fin 5), (Fin (11 / 2), Fin (11 / 2)), (Fin 5, Fin (11 / 2))] =
     Inr (Warped desk_photo
            (Homography
               [(Fin 5, Fin 5), (Fin (11 / 2), Fin 5), (Fin (11 / 2), Fin (11 / 2)), (Fin 5, Fin (11 / 2))]
               [(Fin 0, Fin 0), (Fin (- 1), Fin 0), (Fin (- 1), Fin (- 1)), (Fin 0, Fin (- 1))])
            (0, 0)) \<and>
   dest_size [(Fin 0, Fin 0), (Fin (2 ^ 70), Fin 0), (Fin (2 ^ 70), Fin (2 ^ 70)), (Fin 0, Fin (2 ^ 70))] =
     Inl OverflowError \<and>
   four_point_transform sim_cv desk_photo
     [(Fin 0, Fin 0), (Fin (2 ^ 70), Fin 0), (Fin (2 ^ 70), Fin (2 ^ 70)), (Fin 0, Fin (2 ^ 70))] =
     Inl OverflowError"
proof -
  let ?tiny = "[(Fin 5, Fin 5), (Fin (11 / 2), Fin 5), (Fin (11 / 2), Fin (11 / 2)), (Fin 5, Fin (11 / 2))]"
  let ?huge = "[(Fin 0, Fin 0), (Fin (2 ^ 70), Fin 0), (Fin (2 ^ 70), Fin (2 ^ 70)), (Fin 0, Fin (2 ^ 70))]"
  have ne: "?tiny \<noteq> []" "?huge \<noteq> []" by simp_all
  from four_point_transform_no_check[OF ne(1), of sim_cv desk_photo]
  have t: "four_point_transform sim_cv desk_photo ?tiny =
     Inr (Warped desk_photo
            (Homography ?tiny [(Fin 0, Fin 0), (Fin (- 1), Fin 0), (Fin (- 1), Fin (- 1)), (Fin 0, Fin (- 1))])
            (0, 0))"
    using tiny_order tiny_size by (auto simp: dst_corners_def sim_warp float_of_int_def)
  from four_point_transform_no_check[OF ne(2), of sim_cv desk_photo]
  have h: "four_point_transform sim_cv desk_photo ?huge = Inl OverflowError"
    using huge_order huge_size by auto
  from ne(1) tiny_size tiny_side1 t huge_size h show ?thesis by simp
qed

lemma receipt_scaled:
  "scale_contour receipt (scale_ratio sim_cv receipt_photo) =
     [(Fin (4255901647865119 / 2 ^ 50), Fin (3039929748475085 / 2 ^ 49)),
      (Fin (2032953019292713 / 2 ^ 45), Fin (3039929748475085 / 2 ^ 49)),
      (Fin (2032953019292713 / 2 ^ 45), Fin (1139973655678157 / 2 ^ 45)),
      (Fin (4255901647865119 / 2 ^ 50), Fin (1139973655678157 / 2 ^ 45))]"
  unfolding receipt_ratio
  by (simp add: scale_contour_def receipt_def float_of_int_def fl_ops round_small)

lemma receipt_fpt:
  "four_point_transform sim_cv receipt_photo (scale_contour receipt (scale_ratio sim_cv receipt_photo)) =
     Inr (Warped receipt_photo
            (Homography
               [(Fin (15854469 / 2 ^ 22), Fin (11324621 / 2 ^ 21)),
                (Fin (1893335 / 2 ^ 15), Fin (11324621 / 2 ^ 21)),
                (Fin (1893335 / 2 ^ 15), Fin (4246733 / 2 ^ 17)),
                (Fin (15854469 / 2 ^ 22), Fin (4246733 / 2 ^ 17))]
               [(Fin 0, Fin 0), (Fin 53, Fin 0), (Fin 53, Fin 26), (Fin 0, Fin 26)])
            (54, 27))"
  unfolding receipt_scaled
  using receipt_order receipt_size
  by (simp add: four_point_transform_def dst_corners_def sim_warp float_of_int_def round_small)

theorem scan_document_returns_witness:
  "shape sim_cv receipt_photo = (270, 540) \<and>
   scan_document sim_cv [input_image_path \<mapsto> receipt_photo] input_image_path =
     ([], Inr (ReturnPair (Resized receipt_photo (999, 500))
        (Thresholded (Converted
           (Warped receipt_photo
              (Homography
                 [(Fin (15854469 / 2 ^ 22), Fin (11324621 / 2 ^ 21)),
                  (Fin (1893335 / 2 ^ 15), Fin (11324621 / 2 ^ 21)),
                  (Fin (1893335 / 2 ^ 15), Fin (4246733 / 2 ^ 17)),
                  (Fin (15854469 / 2 ^ 22), Fin (4246733 / 2 ^ 17))]
                 [(Fin 0, Fin 0), (Fin 53, Fin 0), (Fin 53, Fin 26), (Fin 0, Fin 26)])
              (54, 27))
           COLOR_BGR2GRAY)))) \<and>
   scan_document sim_cv [input_image_path \<mapsto> blank_photo] input_image_path =
     ([no_document_message], Inr ReturnNone) \<and>
   snd (notebook_main sim_cv [input_image_path \<mapsto> blank_photo]) = Inl TypeError"
proof -
  have f1: "[input_image_path \<mapsto> receipt_photo] input_image_path = Some receipt_photo" by simp
  have sh: "shape sim_cv receipt_photo = (270, 540)"
    by (simp add: sim_shape_eq receipt_photo_def)
  have h1: "fst (shape sim_cv receipt_photo) \<noteq> 0" by (simp add: sh)
  have f2: "[input_image_path \<mapsto> blank_photo] input_image_path = Some blank_photo" by simp
  have h2: "fst (shape sim_cv blank_photo) \<noteq> 0" by (simp add: sim_shape_eq blank_photo_def)
  have blank_find_quad:
    "find_quad sim_cv (candidates sim_cv (edge_map sim_cv (working_copy sim_cv blank_photo))) = None"
    by (simp add: blank_candidates)
  have w: "resize sim_cv receipt_photo
             (fl_trunc
                (fl_div Binary64 (float_of_int Binary64 (uint (snd (shape sim_cv receipt_photo))))
                   (fl_div Binary64 (float_of_int Binary64 (uint (fst (shape sim_cv receipt_photo))))
                      (Fin 500))),
              500) = Resized receipt_photo (999, 500)"
    using receipt_working_copy by (simp add: working_copy_def scaled_width_def scale_ratio_def)
  have th: "adaptiveThreshold sim_cv i v m t b c = Thresholded i" for i v m t b c
    by (simp add: sim_cv_def)
  have cc: "cvtColor sim_cv i k = Converted i k" for i k by (simp add: sim_cv_def)
  from scan_document_returns[where files = "[input_image_path \<mapsto> receipt_photo]"
      and image_path = input_image_path, OF f1 h1]
  have a: "scan_document sim_cv [input_image_path \<mapsto> receipt_photo] input_image_path =
     ([], Inr (ReturnPair (Resized receipt_photo (999, 500))
        (Thresholded (Converted
           (Warped receipt_photo
              (Homography
                 [(Fin (15854469 / 2 ^ 22), Fin (11324621 / 2 ^ 21)),
                  (Fin (1893335 / 2 ^ 15), Fin (11324621 / 2 ^ 21)),
                  (Fin (1893335 / 2 ^ 15), Fin (4246733 / 2 ^ 17)),
                  (Fin (15854469 / 2 ^ 22), Fin (4246733 / 2 ^ 17))]
                 [(Fin 0, Fin 0), (Fin 53, Fin 0), (Fin 53, Fin 26), (Fin 0, Fin 26)])
              (54, 27))
           COLOR_BGR2GRAY))))"
    unfolding receipt_find_quad w receipt_fpt option.case th cc by blast
  from scan_document_returns[where files = "[input_image_path \<mapsto> blank_photo]"
      and image_path = input_image_path, OF f2 h2]
  have b: "scan_document sim_cv [input_image_path \<mapsto> blank_photo] input_image_path =
     ([no_document_message], Inr ReturnNone) \<and>
     snd (notebook_main sim_cv [input_image_path \<mapsto> blank_photo]) = Inl TypeError"
    unfolding blank_find_quad by simp
  from sh a b show ?thesis by simp
qed

section \<open>Properties of the binarizer\<close>

lemma clamp_index_less: "0 < n \<Longrightarrow> clamp_index n i < n"
  by (auto simp: clamp_index_def)

lemma sum_list_pos_map:
  fixes f :: "'a \<Rightarrow> real"
  assumes "xs \<noteq> []" and "\<And>x. x \<in> set xs \<Longrightarrow> 0 < f x"
  shows "0 < (\<Sum>x \<leftarrow> xs. f x)"
  using assms
proof (induction xs)
  case Nil
  then show ?case by simp
next
  case (Cons a xs)
  have "0 \<le> (\<Sum>x \<leftarrow> xs. f x)"
    using Cons.prems(2) by (intro sum_list_nonneg) (auto intro: less_imp_le)
  moreover have "0 < f a" using Cons.prems(2) by simp
  ultimately show ?case by simp
qed

lemma sum_list_divide_const:
  fixes f :: "'a \<Rightarrow> real"
  shows "(\<Sum>x \<leftarrow> xs. f x / c) = (\<Sum>x \<leftarrow> xs. f x) / c"
  by (induction xs) (simp_all add: add_divide_distrib)

lemma window_nonempty: "window \<noteq> []"
proof -
  have "0 \<in> set window" by (simp add: window_def)
  then show ?thesis by auto
qed

lemma gaussian_weights_ok: "weights_ok (gaussian_weights s)"
proof -
  let ?e = "\<lambda>a b. exp (- real_of_int (a\<^sup>2 + b\<^sup>2) / (2 * s\<^sup>2))"
  let ?S = "\<Sum>a \<leftarrow> window. \<Sum>b \<leftarrow> window. ?e a b"
  have pos: "0 < ?S"
    by (intro sum_list_pos_map window_nonempty) simp
  have "(\<Sum>i \<leftarrow> window. \<Sum>j \<leftarrow> window. ?e i j / ?S) = ?S / ?S"
    by (simp add: sum_list_divide_const)
  also have "\<dots> = 1" using pos by simp
  finally have one: "(\<Sum>i \<leftarrow> window. \<Sum>j \<leftarrow> window. gaussian_weights s i j) = 1"
    by (simp add: gaussian_weights_def)
  have "0 \<le> gaussian_weights s i j" for i j
    unfolding gaussian_weights_def using pos by (intro divide_nonneg_nonneg) auto
  with one show ?thesis by (simp add: weights_ok_def)
qed

lemma pixel_at_bound:
  assumes "binary_image g" and "rectangular g" and "r < length g" and "c < length (g ! r)"
  shows "pixel_at g i j \<le> 255"
proof -
  from assms(3) have n: "0 < length g" by (cases g) auto
  let ?row = "g ! clamp_index (length g) i"
  have row: "?row \<in> set g"
    using clamp_index_less[OF n] by simp
  have "g ! r \<in> set g" using assms(3) by simp
  with assms(2) row have "length ?row = length (g ! r)" by (simp add: rectangular_def)
  with assms(4) have "0 < length ?row" by (cases "g ! r") auto
  then have "?row ! clamp_index (length ?row) j \<in> set ?row"
    using clamp_index_less by simp
  with row assms(1) have "?row ! clamp_index (length ?row) j = 0 \<or> ?row ! clamp_index (length ?row) j = 255"
    unfolding binary_image_def by blast
  then show ?thesis by (auto simp: pixel_at_def Let_def)
qed

lemma local_mean_le:
  assumes "weights_ok w" and "\<And>i j. pixel_at g i j \<le> 255"
  shows "local_mean w g r c \<le> 255"
proof -
  have "local_mean w g r c \<le> (\<Sum>i \<leftarrow> window. \<Sum>j \<leftarrow> window. w i j * 255)"
    unfolding local_mean_def
  proof (intro sum_list_mono)
    fix i j assume "i \<in> set window" "j \<in> set window"
    then have "0 \<le> w i j" using assms(1) by (simp add: weights_ok_def)
    moreover have "real (pixel_at g (int r + i) (int c + j)) \<le> 255"
      using assms(2)[of "int r + i" "int c + j"] by simp
    ultimately show "w i j * real (pixel_at g (int r + i) (int c + j)) \<le> w i j * 255"
      by (rule mult_left_mono[rotated])
  qed
  also have "\<dots> = (\<Sum>i \<leftarrow> window. \<Sum>j \<leftarrow> window. w i j) * 255"
    by (simp add: sum_list_mult_const)
  also have "\<dots> = 255" using assms(1) by (simp add: weights_ok_def)
  finally show ?thesis .
qed

lemma binarizer_nth:
  assumes "r < length g" and "c < length (g ! r)"
  shows "binarizer w g ! r ! c = (if local_mean w g r c - 2 < real (g ! r ! c) then 255 else 0)"
  using assms by (simp add: binarizer_def)

lemma local_mean_black: "local_mean w [[0, 0], [0, 0]] r c = 0"
proof -
  have "pixel_at [[0, 0], [0, 0]] i j = 0" for i j
    by (auto simp: pixel_at_def clamp_index_def Let_def nth_Cons' max_def min_def)
  then show ?thesis by (simp add: local_mean_def)
qed

text \<open>
  C8, as the spec states it: applied to an already-binary image the binarizer changes
  no pixel. In an all-black image every local mean is 0, the threshold is \<open>-2\<close>, and
  every pixel, being above it, turns white.
\<close>

theorem binarizer_black_counterexample:
  "binary_image [[0, 0], [0, 0]] \<and>
   binarizer (gaussian_weights 2) [[0, 0], [0, 0]] = [[255, 255], [255, 255]] \<and>
   binarizer (gaussian_weights 2) [[0, 0], [0, 0]] \<noteq> [[0, 0], [0, 0]]"
proof -
  have u2: "[0..<2] = [0, 1]" by (simp add: upt_rec)
  have "binarizer (gaussian_weights 2) [[0, 0], [0, 0]] = [[255, 255], [255, 255]]"
    by (simp add: binarizer_def local_mean_black u2)
  then show ?thesis by (simp add: binary_image_def)
qed

text \<open>
  C8, amended. Applied to an already-binary image, the binarizer leaves every white
  pixel white, and leaves a black pixel black exactly where the weighted local mean is
  at least 2; a black pixel whose neighbourhood is black too turns white.
\<close>

theorem binarizer_on_binary:
  assumes "weights_ok w" and "binary_image g" and "rectangular g"
    and "r < length g" and "c < length (g ! r)"
  shows "binarizer w g ! r ! c = (if g ! r ! c = 255 \<or> local_mean w g r c < 2 then 255 else 0) \<and>
         (g ! r ! c = 255 \<longrightarrow> binarizer w g ! r ! c = g ! r ! c) \<and>
         (g ! r ! c = 0 \<longrightarrow> (binarizer w g ! r ! c = g ! r ! c \<longleftrightarrow> 2 \<le> local_mean w g r c))"
proof -
  have "local_mean w g r c \<le> 255"
    using assms(1) pixel_at_bound[OF assms(2-5)] by (rule local_mean_le)
  moreover have "g ! r ! c = 0 \<or> g ! r ! c = 255"
  proof -
    have "g ! r \<in> set g" "g ! r ! c \<in> set (g ! r)" using assms(4,5) by simp_all
    with assms(2) show ?thesis unfolding binary_image_def by blast
  qed
  ultimately show ?thesis
    by (auto simp: binarizer_nth[OF assms(4,5)])
qed

theorem binarizer_on_binary_witness:
  "weights_ok (gaussian_weights 2) \<and> binary_image [[255, 0], [0, 0]] \<and>
   rectangular [[255, 0], [0, 0]] \<and>
   (0::nat) < length [[255, 0], [0, 0 :: nat]] \<and> (0::nat) < length ([[255, 0], [0, 0 :: nat]] ! 0) \<and>
   binarizer (gaussian_weights 2) [[255, 0], [0, 0]] ! 0 ! 0 = 255"
proof -
  have a: "binary_image [[255, 0], [0, 0]]" by (simp add: binary_image_def)
  have b: "rectangular [[255, 0], [0, 0]]" by (simp add: rectangular_def)
  have c: "(0::nat) < length [[255, 0], [0, 0 :: nat]]" by simp
  have d: "(0::nat) < length ([[255, 0], [0, 0 :: nat]] ! 0)" by simp
  from binarizer_on_binary[OF gaussian_weights_ok a b c d, of 2] gaussian_weights_ok a b c d
  show ?thesis by simp
qed

end
